theory Spec2Isabelle
  imports Complex_Main "HOL-Library.Word" "HOL-Library.AList"
begin

unbundle bit_operations_syntax

section \<open>Data of \<open>rcpp_extract_patterns\<close>\<close>

text \<open>
  The function takes a data frame of reads (the columns \<open>rname\<close>, \<open>strand\<close>, \<open>start\<close>
  and \<open>templid\<close>, all R integer vectors, that is 32-bit \<open>int\<close>), two string tables
  (\<open>xm\<close>: methylation calls, \<open>seq\<close>: bases, both \<open>std::vector<std::string>\<close>) and the
  scalar arguments. A data frame has columns of one length, so the reads are a list of
  rows. R data frames hold fewer than \<open>2^31\<close> rows, so the counters \<open>npat\<close>, \<open>meth\<close>,
  \<open>total\<close> and the per-position counts are natural numbers: none of them can wrap.
  All coordinates are 32-bit words, because the code computes them as \<open>unsigned int\<close>
  and wraps around; \<open>int\<close> and \<open>unsigned int\<close> share the representation, and the
  model reads a word as signed (\<open>sint\<close>, \<open>\<le>s\<close>) exactly where the code does.
  The call \<open>Rcpp::checkUserInterrupt()\<close> depends on an event outside the arguments and
  is not part of the model.
\<close>

datatype error =
  Out_Of_Range  \<comment> \<open>\<open>std::out_of_range\<close>, thrown by \<open>std::vector::at\<close>\<close>
| Undefined     \<comment> \<open>a read or write outside an array: no defined behaviour in C++\<close>

record read =
  rname :: "32 word"
  strand :: "32 word"
  start :: "32 word"
  templid :: "32 word"

text \<open>
  The scalar arguments. The type \<open>'d\<close> stands for \<open>double\<close>: the model does not fix a
  floating-point semantics, it takes the two operations the code applies to doubles as
  parameters (record \<open>machine\<close> below), so every theorem holds for any of them.
\<close>

record 'd params =
  target_rname :: "32 word"
  target_start :: "32 word"
  target_end :: "32 word"
  min_overlap :: "32 word"
  ctx :: string
  min_ctx_freq :: 'd
  clip :: bool
  reverse_offset :: "32 word"
  hlght :: "32 word list"

text \<open>
  What the C++ standard leaves to the implementation, and the arithmetic on doubles:
  whether \<open>char\<close> is signed (it is on x86 and on Apple's ARM, it is not on ARM Linux),
  the byte order of an \<open>int\<close> in memory, the quotient \<open>(double)a / b\<close> of two
  non-negative integers, and \<open>>=\<close> on doubles.
\<close>

record 'd machine =
  char_signed :: bool
  big_endian :: bool
  fdiv :: "nat \<Rightarrow> nat \<Rightarrow> 'd"
  fge :: "'d \<Rightarrow> 'd \<Rightarrow> bool"

section \<open>Overlap of a read with the target (lines 89-99 and 129-139)\<close>

definition end_x :: "32 word \<Rightarrow> 32 word \<Rightarrow> 32 word" where
  "end_x start_x size_x = start_x + size_x - 1"

definition over_start_x :: "'d params \<Rightarrow> 32 word \<Rightarrow> 32 word" where
  "over_start_x ps start_x = max start_x (target_start ps)"

definition over_end_x :: "'d params \<Rightarrow> 32 word \<Rightarrow> 32 word \<Rightarrow> 32 word" where
  "over_end_x ps start_x size_x = min (end_x start_x size_x) (target_end ps)"

definition overlap :: "'d params \<Rightarrow> 32 word \<Rightarrow> 32 word \<Rightarrow> 32 word" where
  "overlap ps start_x size_x = over_end_x ps start_x size_x - over_start_x ps start_x + 1"

text \<open>\<open>overlap >= min_overlap\<close> compares two \<open>signed int\<close>.\<close>

definition overlaps :: "'d params \<Rightarrow> 32 word \<Rightarrow> 32 word \<Rightarrow> bool" where
  "overlaps ps start_x size_x \<longleftrightarrow> min_overlap ps \<le>s overlap ps start_x size_x"

definition offset_x :: "'d params \<Rightarrow> read \<Rightarrow> 32 word" where
  "offset_x ps r = (if strand r = 2 then reverse_offset ps else 0)"

definition begin_i :: "'d params \<Rightarrow> 32 word \<Rightarrow> 32 word" where
  "begin_i ps start_x = (if clip ps then over_start_x ps start_x - start_x else 0)"

definition end_i :: "'d params \<Rightarrow> 32 word \<Rightarrow> 32 word \<Rightarrow> 32 word" where
  "end_i ps start_x size_x = (if clip ps then overlap ps start_x size_x else size_x)"

text \<open>The indices that \<open>for (unsigned int i=begin_i; i<end_i; i++)\<close> visits, in order.\<close>

definition scan_range :: "'d params \<Rightarrow> 32 word \<Rightarrow> 32 word \<Rightarrow> nat list" where
  "scan_range ps start_x size_x =
     [unat (begin_i ps start_x) ..< unat (end_i ps start_x size_x)]"

section \<open>Strings, the context table and the ordered maps\<close>

text \<open>
  \<open>xm->at(templid[x])\<close> converts the \<open>int\<close> to \<open>size_t\<close> and checks the bound: a negative
  or too large index throws.
\<close>

definition at_vec :: "'a list \<Rightarrow> 32 word \<Rightarrow> error + 'a" where
  "at_vec v t =
     (if 0 \<le> sint t \<and> nat (sint t) < length v then Inr (v ! nat (sint t))
      else Inl Out_Of_Range)"

text \<open>
  \<open>s.c_str()[i]\<close>: the characters of the string, then the terminating zero; anything
  further is outside the buffer.
\<close>

definition c_str_at :: "string \<Rightarrow> nat \<Rightarrow> error + char" where
  "c_str_at s i =
     (if i < length s then Inr (s ! i)
      else if i = length s then Inr (CHR 0x00)
      else Inl Undefined)"

text \<open>
  \<open>ctx_map\<close> (lines 71-76): 128 flags, set for every character of \<open>ctx\<close> and then for
  \<open>A\<close>, \<open>C\<close>, \<open>G\<close> and \<open>T\<close>. The one table serves the scan of the call strings
  (lines 101 and 143) and the test of the bases to highlight (line 163).
\<close>

definition ctx_map :: "string \<Rightarrow> char \<Rightarrow> bool" where
  "ctx_map cs c \<longleftrightarrow> c \<in> set cs \<or> c \<in> set ''ACGT''"

text \<open>
  \<open>ctx_map[(int)s[i]]\<close>: the character read from the string and its flag. A byte of
  128 or more indexes outside the table.
\<close>

definition probe :: "string \<Rightarrow> string \<Rightarrow> nat \<Rightarrow> error + (char \<times> bool)" where
  "probe cs s i =
     (case c_str_at s i of
        Inl e \<Rightarrow> Inl e
      | Inr c \<Rightarrow> if (of_char c :: nat) < 128 then Inr (c, ctx_map cs c) else Inl Undefined)"

definition ctx_to_idx :: "char \<Rightarrow> nat" where
  "ctx_to_idx c = drop_bit 2 (of_char c + 2) AND 15"

definition base_map :: "nat list" where
  "base_map = [3, 4, 11, 12]"

definition nt_to_idx :: "char \<Rightarrow> nat" where
  "nt_to_idx c = base_map ! (drop_bit 1 (of_char c) AND 3)"

text \<open>
  \<open>pos_map\<close>, \<open>pat_map\<close> and \<open>hlght_map\<close> are ordered maps with \<open>int\<close> keys: association
  lists kept in the order of the signed keys. \<open>emplace\<close> (and \<open>try_emplace\<close>) insert
  a key that is absent and leave the map alone otherwise; \<open>find\<close> is \<open>map_of\<close>; a
  write through the iterator is \<open>AList.map_entry\<close>.
\<close>

type_synonym 'v int_map = "(32 word \<times> 'v) list"

definition emplace :: "32 word \<Rightarrow> 'v \<Rightarrow> 'v int_map \<Rightarrow> 'v int_map" where
  "emplace k v m =
     (if k \<in> fst ` set m then m else insort_key (\<lambda>e. sint (fst e)) (k, v) m)"

text \<open>A loop whose body can fail stops at the first failure.\<close>

fun for_each :: "('a \<Rightarrow> 's \<Rightarrow> error + 's) \<Rightarrow> 'a list \<Rightarrow> 's \<Rightarrow> error + 's" where
  "for_each f [] s = Inr s"
| "for_each f (x # xs) s = (case f x s of Inl e \<Rightarrow> Inl e | Inr s' \<Rightarrow> for_each f xs s')"

section \<open>First pass: the positions in context (lines 84-110)\<close>

text \<open>Lines 101-105, for one index \<open>i\<close>.\<close>

definition count_ctx ::
  "string \<Rightarrow> string \<Rightarrow> 32 word \<Rightarrow> 32 word \<Rightarrow> nat \<Rightarrow> nat int_map \<Rightarrow> error + nat int_map" where
  "count_ctx cs xm_x start_x off i pos_map =
     (case probe cs xm_x i of
        Inl e \<Rightarrow> Inl e
      | Inr (c, b) \<Rightarrow>
          if b then
            let pos = start_x + of_nat i - off
            in Inr (AList.map_entry pos Suc (emplace pos 0 pos_map))
          else Inr pos_map)"

text \<open>Lines 88-109, for one read: the state is \<open>pos_map\<close> and the counter \<open>npat\<close>.\<close>

definition pass1_read ::
  "'d params \<Rightarrow> string list \<Rightarrow> read \<Rightarrow> nat int_map \<times> nat \<Rightarrow> error + nat int_map \<times> nat" where
  "pass1_read ps xm r st =
     (if rname r = target_rname ps then
        (case at_vec xm (templid r) of
           Inl e \<Rightarrow> Inl e
         | Inr xm_x \<Rightarrow>
             let size_x = of_nat (length xm_x); start_x = start r
             in if overlaps ps start_x size_x then
                  (case for_each (count_ctx (ctx ps) xm_x start_x (offset_x ps r))
                          (scan_range ps start_x size_x) (fst st) of
                     Inl e \<Rightarrow> Inl e
                   | Inr pos_map \<Rightarrow> Inr (pos_map, Suc (snd st)))
                else Inr st)
      else Inr st)"

definition pass1 ::
  "'d params \<Rightarrow> string list \<Rightarrow> read list \<Rightarrow> error + nat int_map \<times> nat" where
  "pass1 ps xm reads = for_each (pass1_read ps xm) reads ([], 0)"

section \<open>The pattern map and the highlight map (lines 113-121)\<close>

text \<open>A column of the result: one cell for each candidate read, \<open>NA_INTEGER\<close> is \<open>None\<close>.\<close>

type_synonym cells = "nat option list"

definition frequent :: "'d machine \<Rightarrow> 'd params \<Rightarrow> nat \<Rightarrow> nat \<Rightarrow> bool" where
  "frequent m ps n npat \<longleftrightarrow> fge m (fdiv m n npat) (min_ctx_freq ps)"

definition fill_pat_map ::
  "'d machine \<Rightarrow> 'd params \<Rightarrow> nat int_map \<Rightarrow> nat \<Rightarrow> cells int_map" where
  "fill_pat_map m ps pos_map npat =
     fold (\<lambda>it pat_map.
            if frequent m ps (snd it) npat \<and> fst it \<notin> set (hlght ps)
            then emplace (fst it) (replicate npat None) pat_map
            else pat_map)
       pos_map []"

definition fill_hlght_map :: "'d params \<Rightarrow> nat \<Rightarrow> cells int_map" where
  "fill_hlght_map ps npat =
     fold (\<lambda>h hlght_map. emplace h (replicate npat None) hlght_map) (hlght ps) []"

section \<open>The hash (lines 44-50, 55, 179-181)\<close>

definition offset_basis :: "64 word" where
  "offset_basis = 14695981039346656037"

text \<open>
  \<open>hash ^= *(pointer+idx)\<close> with \<open>pointer\<close> a \<open>const char*\<close>: the \<open>char\<close> is converted to
  the 64-bit type of \<open>hash\<close>, with its sign where \<open>char\<close> is signed.
\<close>

definition char_to_u64 :: "bool \<Rightarrow> 8 word \<Rightarrow> 64 word" where
  "char_to_u64 sg b = (if sg then scast b else ucast b)"

definition fnv_add :: "bool \<Rightarrow> 64 word \<Rightarrow> 8 word list \<Rightarrow> 64 word" where
  "fnv_add sg hash bytes =
     fold (\<lambda>b h. (h XOR char_to_u64 sg b) * 1099511628211) bytes hash"

text \<open>The four bytes of an \<open>int\<close> as they lie in memory.\<close>

definition int_bytes :: "bool \<Rightarrow> 32 word \<Rightarrow> 8 word list" where
  "int_bytes big w =
     (let le = [ucast w, ucast (drop_bit 8 w), ucast (drop_bit 16 w), ucast (drop_bit 24 w)]
      in if big then rev le else le)"

definition char_byte :: "char \<Rightarrow> 8 word" where
  "char_byte c = of_char c"

text \<open>The two \<open>fnv_add\<close> of lines 151-152 and of lines 167-168.\<close>

definition fnv_pos_base :: "'d machine \<Rightarrow> 64 word \<Rightarrow> 32 word \<Rightarrow> char \<Rightarrow> 64 word" where
  "fnv_pos_base m fnv pos c =
     fnv_add (char_signed m) (fnv_add (char_signed m) fnv (int_bytes (big_endian m) pos))
       [char_byte c]"

text \<open>\<open>snprintf(fnv_str, 17, "%.16" PRIX64, fnv)\<close>: sixteen upper-case hexadecimal digits.\<close>

definition hex_digit :: "nat \<Rightarrow> char" where
  "hex_digit d = ''0123456789ABCDEF'' ! d"

definition hex16 :: "64 word \<Rightarrow> string" where
  "hex16 w = map (\<lambda>k. hex_digit (unat (drop_bit (4 * k) w AND 15))) (rev [0..<16])"

section \<open>Second pass: the patterns (lines 123-185)\<close>

record 'd pattern =
  pat_strand :: "32 word"
  pat_start :: "32 word"
  pat_end :: "32 word"
  pat_nbase :: nat
  pat_beta :: 'd
  pat_fnv :: string

text \<open>
  The state of the second pass. The counter \<open>npat\<close> is incremented exactly where the
  six vectors \<open>pat_strand\<close>, ..., \<open>pat_fnv\<close> get one more element, so it is the length
  of the list \<open>pats\<close>.
\<close>

record 'd state =
  pat_map :: "cells int_map"
  hlght_map :: "cells int_map"
  pats :: "'d pattern list"

text \<open>
  Lines 143-154 for one index: the state is \<open>pat_map\<close>, \<open>meth\<close>, \<open>total\<close> (here \<open>totl\<close>) and \<open>fnv\<close>;
  \<open>npat\<close> is the row that the read would get.
\<close>

definition scan_pat ::
  "'d machine \<Rightarrow> string \<Rightarrow> string \<Rightarrow> 32 word \<Rightarrow> 32 word \<Rightarrow> nat \<Rightarrow> nat \<Rightarrow>
     cells int_map \<times> nat \<times> nat \<times> 64 word \<Rightarrow> error + cells int_map \<times> nat \<times> nat \<times> 64 word" where
  "scan_pat m cs xm_x start_x off npat i st =
     (case st of (pmap, meth, totl, fnv) \<Rightarrow>
        (case probe cs xm_x i of
           Inl e \<Rightarrow> Inl e
         | Inr (c, b) \<Rightarrow>
             if b then
               let pos = start_x + of_nat i - off
               in (case map_of pmap pos of
                     None \<Rightarrow> Inr st
                   | Some _ \<Rightarrow>
                       let base = ctx_to_idx c
                       in Inr (AList.map_entry pos (\<lambda>v. v[npat := Some base]) pmap,
                               meth + (if base AND 8 = 0 then 1 else 0),
                               Suc totl,
                               fnv_pos_base m fnv pos c))
             else Inr st))"

text \<open>Lines 161-169 for one position to highlight: the state is \<open>hlght_map\<close> and \<open>fnv\<close>.\<close>

definition scan_hlght ::
  "'d machine \<Rightarrow> string \<Rightarrow> string \<Rightarrow> 32 word \<Rightarrow> 32 word \<Rightarrow> 32 word \<Rightarrow> nat \<Rightarrow> 32 word \<Rightarrow>
     cells int_map \<times> 64 word \<Rightarrow> error + cells int_map \<times> 64 word" where
  "scan_hlght m cs seq_x start_x b_i e_i npat h st =
     (case st of (hmap, fnv) \<Rightarrow>
        let hlght_pos = h - start_x
        in if b_i \<le> hlght_pos \<and> hlght_pos < e_i then
             (case probe cs seq_x (unat hlght_pos) of
                Inl e \<Rightarrow> Inl e
              | Inr (c, b) \<Rightarrow>
                  if b then
                    Inr (AList.map_entry h (\<lambda>v. v[npat := Some (nt_to_idx c)]) hmap,
                         fnv_pos_base m fnv h c)
                  else Inr st)
           else Inr st)"

text \<open>Lines 128-184, for one read.\<close>

definition pass2_read ::
  "'d machine \<Rightarrow> 'd params \<Rightarrow> string list \<Rightarrow> string list \<Rightarrow> read \<Rightarrow> 'd state \<Rightarrow>
     error + 'd state" where
  "pass2_read m ps xm seq r st =
     (if rname r = target_rname ps then
        (case at_vec xm (templid r) of
           Inl e \<Rightarrow> Inl e
         | Inr xm_x \<Rightarrow>
             let size_x = of_nat (length xm_x); start_x = start r; npat = length (pats st)
             in if overlaps ps start_x size_x then
                  (case for_each (scan_pat m (ctx ps) xm_x start_x (offset_x ps r) npat)
                          (scan_range ps start_x size_x) (pat_map st, 0, 0, offset_basis) of
                     Inl e \<Rightarrow> Inl e
                   | Inr (pat_map', meth, totl, fnv) \<Rightarrow>
                       if fnv \<noteq> offset_basis then
                         (case at_vec seq (templid r) of
                            Inl e \<Rightarrow> Inl e
                          | Inr seq_x \<Rightarrow>
                              (case for_each
                                      (scan_hlght m (ctx ps) seq_x start_x (begin_i ps start_x)
                                         (end_i ps start_x size_x) npat)
                                      (hlght ps) (hlght_map st, fnv) of
                                 Inl e \<Rightarrow> Inl e
                               | Inr (hlght_map', fnv') \<Rightarrow>
                                   Inr \<lparr>pat_map = pat_map', hlght_map = hlght_map',
                                        pats = pats st @
                                          [\<lparr>pat_strand = strand r,
                                            pat_start = start_x + begin_i ps start_x,
                                            pat_end = start_x + end_i ps start_x size_x - 1,
                                            pat_nbase = totl,
                                            pat_beta = fdiv m meth totl,
                                            pat_fnv = hex16 fnv'\<rparr>]\<rparr>))
                       else Inr (st\<lparr>pat_map := pat_map'\<rparr>))
                else Inr st)
      else Inr st)"

definition pass2 ::
  "'d machine \<Rightarrow> 'd params \<Rightarrow> string list \<Rightarrow> string list \<Rightarrow> read list \<Rightarrow> 'd state \<Rightarrow>
     error + 'd state" where
  "pass2 m ps xm seq reads st = for_each (pass2_read m ps xm seq) reads st"

section \<open>The result (lines 187-222)\<close>

text \<open>
  A data frame is the list of its named columns; \<open>Rcpp::DataFrame::create()\<close> is the
  empty list. The columns of the positions carry the key of the map as their name.
  The attributes (factor levels) are passed through from the arguments and are not
  part of the model.
\<close>

datatype colname = Name string | Position "32 word"

datatype 'd column =
  Ints "32 word list" | Counts "nat list" | Doubles "'d list" | Strings "string list"
| Factor "nat option list"

type_synonym 'd data_frame = "(colname \<times> 'd column) list"

text \<open>\<open>pat_map.merge(hlght_map)\<close> moves the entries whose key \<open>pat_map\<close> does not have.\<close>

definition merge :: "'v int_map \<Rightarrow> 'v int_map \<Rightarrow> 'v int_map" where
  "merge m1 m2 = fold (\<lambda>e m. emplace (fst e) (snd e) m) m2 m1"

definition assemble :: "'d params \<Rightarrow> 'd state \<Rightarrow> 'd data_frame" where
  "assemble ps st =
     (let npat = length (pats st)
      in [(Name ''seqnames'', Ints (replicate npat (target_rname ps))),
          (Name ''strand'', Ints (map pat_strand (pats st))),
          (Name ''start'', Ints (map pat_start (pats st))),
          (Name ''end'', Ints (map pat_end (pats st))),
          (Name ''nbase'', Counts (map pat_nbase (pats st))),
          (Name ''beta'', Doubles (map pat_beta (pats st))),
          (Name ''pattern'', Strings (map pat_fnv (pats st)))] @
         map (\<lambda>e. (Position (fst e), Factor (take npat (snd e))))
           (merge (pat_map st) (hlght_map st)))"

text \<open>Both passes (lines 84-185): the state in which line 187 finds the function.\<close>

definition both_passes ::
  "'d machine \<Rightarrow> 'd params \<Rightarrow> string list \<Rightarrow> string list \<Rightarrow> read list \<Rightarrow>
     error + 'd state" where
  "both_passes m ps xm seq reads =
     (case pass1 ps xm reads of
        Inl e \<Rightarrow> Inl e
      | Inr (pos_map, npat) \<Rightarrow>
          pass2 m ps xm seq reads
            \<lparr>pat_map = fill_pat_map m ps pos_map npat,
             hlght_map = fill_hlght_map ps npat,
             pats = []\<rparr>)"

text \<open>
  The whole function. Filling \<open>ctx_map\<close> from a context string with a byte of 128 or
  more writes outside the table.
\<close>

definition rcpp_extract_patterns ::
  "'d machine \<Rightarrow> 'd params \<Rightarrow> string list \<Rightarrow> string list \<Rightarrow> read list \<Rightarrow>
     error + 'd data_frame" where
  "rcpp_extract_patterns m ps xm seq reads =
     (if \<exists>c \<in> set (ctx ps). 128 \<le> (of_char c :: nat) then Inl Undefined
      else
        (case both_passes m ps xm seq reads of
           Inl e \<Rightarrow> Inl e
         | Inr st \<Rightarrow> if pats st = [] then Inr [] else Inr (assemble ps st)))"

section \<open>What the loops compute\<close>

text \<open>
  Closed forms of the loops of the source, for the statements below. They follow the
  code, test by test: where the code consults \<open>ctx_map\<close>, they take the flag of
  \<open>probe\<close>, which is set for the characters of \<open>ctx\<close> and for \<open>A\<close>, \<open>C\<close>, \<open>G\<close>, \<open>T\<close>.
  The notions of the specification, which speak of the context set of the caller, are
  in the next section.

  A candidate read: on the target chromosome, with a call string, and passing the
  overlap filter (lines 88-95). These are the reads that the first pass counts.
\<close>

definition candidate :: "'d params \<Rightarrow> string list \<Rightarrow> read \<Rightarrow> bool" where
  "candidate ps xm r \<longleftrightarrow>
     rname r = target_rname ps \<and>
     (case at_vec xm (templid r) of
        Inl e \<Rightarrow> False
      | Inr xm_x \<Rightarrow> overlaps ps (start r) (of_nat (length xm_x)))"

text \<open>
  The count of a position in \<open>pos_map\<close> (none when the position is absent), a call
  that passes the test of line 101, and the number of such calls of a read that fall on
  a position.
\<close>

definition count_at :: "nat int_map \<Rightarrow> 32 word \<Rightarrow> nat" where
  "count_at pos_map pos = (case map_of pos_map pos of None \<Rightarrow> 0 | Some n \<Rightarrow> n)"

definition counted_call :: "string \<Rightarrow> string \<Rightarrow> nat \<Rightarrow> bool" where
  "counted_call cs xm_x i \<longleftrightarrow> (case probe cs xm_x i of Inl e \<Rightarrow> False | Inr (c, b) \<Rightarrow> b)"

definition counted_hits :: "'d params \<Rightarrow> string list \<Rightarrow> read \<Rightarrow> 32 word \<Rightarrow> nat" where
  "counted_hits ps xm r pos =
     (case at_vec xm (templid r) of
        Inl e \<Rightarrow> 0
      | Inr xm_x \<Rightarrow>
          length (filter (\<lambda>i. counted_call (ctx ps) xm_x i \<and>
                               start r + of_nat i - offset_x ps r = pos)
                    (scan_range ps (start r) (of_nat (length xm_x)))))"

text \<open>
  An index of the call string that the second pass records: its character passes the
  test of line 143 (the flag of \<open>ctx_map\<close>) and its position is found in \<open>pat_map\<close>
  at line 146 (\<open>sel\<close> stands for the keys of \<open>pat_map\<close>). Line 149 counts it in \<open>meth\<close>
  when bit 8 of its category is clear.
\<close>

definition recorded_call ::
  "string \<Rightarrow> string \<Rightarrow> 32 word \<Rightarrow> 32 word \<Rightarrow> 32 word set \<Rightarrow> nat \<Rightarrow> bool" where
  "recorded_call cs xm_x start_x off sel i \<longleftrightarrow>
     (case probe cs xm_x i of
        Inl e \<Rightarrow> False
      | Inr (c, b) \<Rightarrow> b \<and> start_x + of_nat i - off \<in> sel)"

definition methylated_call :: "string \<Rightarrow> nat \<Rightarrow> bool" where
  "methylated_call xm_x i \<longleftrightarrow>
     (case c_str_at xm_x i of Inl e \<Rightarrow> False | Inr c \<Rightarrow> ctx_to_idx c AND 8 = 0)"

text \<open>A position to highlight that the second pass records for a read (lines 162-163).\<close>

definition recorded_hlght ::
  "string \<Rightarrow> string \<Rightarrow> 32 word \<Rightarrow> 32 word \<Rightarrow> 32 word \<Rightarrow> 32 word \<Rightarrow> bool" where
  "recorded_hlght cs seq_x start_x b_i e_i h \<longleftrightarrow>
     b_i \<le> h - start_x \<and> h - start_x < e_i \<and>
     (case probe cs seq_x (unat (h - start_x)) of Inl e \<Rightarrow> False | Inr (c, b) \<Rightarrow> b)"

text \<open>
  The bytes that the code hashes for a pattern: for each recorded index of the call
  string, in the order of the scan, the bytes of the position and the call; then for
  each recorded position to highlight, in the order of the list, its bytes and the
  base.
\<close>

definition char_at :: "string \<Rightarrow> nat \<Rightarrow> char" where
  "char_at s i = (case c_str_at s i of Inl e \<Rightarrow> CHR 0x00 | Inr c \<Rightarrow> c)"

definition hashed_bytes ::
  "'d machine \<Rightarrow> 'd params \<Rightarrow> string \<Rightarrow> string \<Rightarrow> read \<Rightarrow> 32 word set \<Rightarrow> 8 word list" where
  "hashed_bytes m ps xm_x seq_x r sel =
     (let start_x = start r; size_x = of_nat (length xm_x); off = offset_x ps r
      in concat (map (\<lambda>i. int_bytes (big_endian m) (start_x + of_nat i - off) @
                           [char_byte (char_at xm_x i)])
                  (filter (recorded_call (ctx ps) xm_x start_x off sel)
                     (scan_range ps start_x size_x))) @
         concat (map (\<lambda>h. int_bytes (big_endian m) h @
                           [char_byte (char_at seq_x (unat (h - start_x)))])
                  (filter (recorded_hlght (ctx ps) seq_x start_x (begin_i ps start_x)
                             (end_i ps start_x size_x))
                     (hlght ps))))"

text \<open>
  The values of the counters \<open>total\<close> and \<open>meth\<close> (line 140) after the scan of a read,
  and the record that lines 174-181 push for it.
\<close>

definition total_of :: "'d params \<Rightarrow> string \<Rightarrow> read \<Rightarrow> 32 word set \<Rightarrow> nat" where
  "total_of ps xm_x r sel =
     length (filter (recorded_call (ctx ps) xm_x (start r) (offset_x ps r) sel)
               (scan_range ps (start r) (of_nat (length xm_x))))"

definition meth_of :: "'d params \<Rightarrow> string \<Rightarrow> read \<Rightarrow> 32 word set \<Rightarrow> nat" where
  "meth_of ps xm_x r sel =
     length (filter (\<lambda>i. recorded_call (ctx ps) xm_x (start r) (offset_x ps r) sel i \<and>
                          methylated_call xm_x i)
               (scan_range ps (start r) (of_nat (length xm_x))))"

definition pattern_of ::
  "'d machine \<Rightarrow> 'd params \<Rightarrow> string \<Rightarrow> string \<Rightarrow> read \<Rightarrow> 32 word set \<Rightarrow> 'd pattern" where
  "pattern_of m ps xm_x seq_x r sel =
     \<lparr>pat_strand = strand r,
      pat_start = start r + begin_i ps (start r),
      pat_end = start r + end_i ps (start r) (of_nat (length xm_x)) - 1,
      pat_nbase = total_of ps xm_x r sel,
      pat_beta = fdiv m (meth_of ps xm_x r sel) (total_of ps xm_x r sel),
      pat_fnv = hex16 (fnv_add (char_signed m) offset_basis
                         (hashed_bytes m ps xm_x seq_x r sel))\<rparr>"

section \<open>Notions of the specification\<close>

text \<open>
  The span that a read and the target share, as indices into the call string: the
  \<open>i\<close> with \<open>over_start_x \<le> start_x + i \<le> over_end_x\<close>.
\<close>

definition intersected_span :: "'d params \<Rightarrow> 32 word \<Rightarrow> 32 word \<Rightarrow> nat list" where
  "intersected_span ps start_x size_x =
     filter (\<lambda>i. over_start_x ps start_x \<le> start_x + of_nat i \<and>
                 start_x + of_nat i \<le> over_end_x ps start_x size_x)
       [0 ..< unat size_x]"

text \<open>
  A call in context, in the sense of the specification: the character of the call
  string at the index belongs to the context set that the caller supplied. The
  in-context calls of a read are those in its scan range; \<open>nbase\<close> and the count of
  methylated calls of the specification range over the in-context calls at selected
  positions \<open>sel\<close>.
\<close>

definition in_context :: "'d params \<Rightarrow> string \<Rightarrow> nat \<Rightarrow> bool" where
  "in_context ps xm_x i \<longleftrightarrow> i < length xm_x \<and> xm_x ! i \<in> set (ctx ps)"

definition in_context_calls :: "'d params \<Rightarrow> string \<Rightarrow> read \<Rightarrow> nat list" where
  "in_context_calls ps xm_x r =
     filter (in_context ps xm_x) (scan_range ps (start r) (of_nat (length xm_x)))"

definition spec_nbase :: "'d params \<Rightarrow> string \<Rightarrow> read \<Rightarrow> 32 word set \<Rightarrow> nat" where
  "spec_nbase ps xm_x r sel =
     length (filter (\<lambda>i. start r + of_nat i - offset_x ps r \<in> sel)
               (in_context_calls ps xm_x r))"

definition spec_meth_count :: "'d params \<Rightarrow> string \<Rightarrow> read \<Rightarrow> 32 word set \<Rightarrow> nat" where
  "spec_meth_count ps xm_x r sel =
     length (filter (\<lambda>i. start r + of_nat i - offset_x ps r \<in> sel \<and>
                          ctx_to_idx (xm_x ! i) AND 8 = 0)
               (in_context_calls ps xm_x r))"

text \<open>The number that a string of hexadecimal digits (upper case) denotes.\<close>

definition hex_value :: "string \<Rightarrow> nat" where
  "hex_value s =
     foldl (\<lambda>a c. 16 * a + (if of_char c < (58::nat) then of_char c - 48 else of_char c - 55)) 0 s"

text \<open>
  FNV-1a as published (the page that line 44 cites): each octet is xor-ed into the
  low eight bits of the hash, which is then multiplied by the FNV prime.
\<close>

definition fnv1a :: "64 word \<Rightarrow> 8 word list \<Rightarrow> 64 word" where
  "fnv1a hash bytes = fold (\<lambda>b h. (h XOR ucast b) * 1099511628211) bytes hash"

section \<open>Example inputs\<close>

text \<open>
  Two implementations, with exact rational arithmetic in the place of doubles, and
  arguments as in the test at the end of the source file: context \<open>zZ\<close>, minimum
  overlap 1, minimum frequency 0.1.
\<close>

definition x86_64 :: "rat machine" where
  "x86_64 = \<lparr>char_signed = True, big_endian = False,
              fdiv = (\<lambda>a b. of_nat a / of_nat b), fge = (\<lambda>a b. b \<le> a)\<rparr>"

definition aarch64_linux :: "rat machine" where
  "aarch64_linux = x86_64\<lparr>char_signed := False\<rparr>"

definition cpg :: "32 word \<Rightarrow> 32 word \<Rightarrow> rat params" where
  "cpg from to =
     \<lparr>target_rname = 47, target_start = from, target_end = to, min_overlap = 1,
      ctx = ''zZ'', min_ctx_freq = 1 / 10, clip = True, reverse_offset = 0, hlght = []\<rparr>"

definition read_at :: "32 word \<Rightarrow> 32 word \<Rightarrow> read" where
  "read_at pos t = \<lparr>rname = 47, strand = 1, start = pos, templid = t\<rparr>"

definition two_reads :: "read list" where
  "two_reads = [read_at 100 0, read_at 100 1]"

text \<open>
  A position to highlight, and the state in which the second pass starts on
  \<open>two_reads\<close> with the calls \<open>Zz\<close> and \<open>hH\<close>: the first pass counts the positions
  100 and 101 once each in two candidate reads, and 101 is to be highlighted.
\<close>

definition hl_params :: "rat params" where
  "hl_params = (cpg 100 110)\<lparr>hlght := [101]\<rparr>"

definition hl_state :: "rat state" where
  "hl_state =
     \<lparr>pat_map = fill_pat_map x86_64 hl_params [(100, 1), (101, 1)] 2,
      hlght_map = fill_hlght_map hl_params 2,
      pats = []\<rparr>"

text \<open>
  The state after both passes on \<open>two_reads\<close> with the calls \<open>Zz\<close> and \<open>hH\<close> and no
  position to highlight: one pattern, from the first read.
\<close>

definition zz_pattern :: "rat pattern" where
  "zz_pattern =
     \<lparr>pat_strand = 1, pat_start = 100, pat_end = 101, pat_nbase = 2, pat_beta = 1 / 2,
      pat_fnv = ''86ACA7108F7AA06A''\<rparr>"

definition zz_state :: "rat state" where
  "zz_state =
     \<lparr>pat_map = [(100, [Some 7, None]), (101, [Some 15, None])], hlght_map = [],
      pats = [zz_pattern]\<rparr>"

text \<open>
  Three reads with the calls \<open>Zz\<close>, \<open>Z.\<close> and \<open>hH\<close>, and the minimum frequency 1/2:
  three candidate reads, two patterns.
\<close>

definition three_reads :: "read list" where
  "three_reads = [read_at 100 0, read_at 100 1, read_at 100 2]"

definition half_params :: "rat params" where
  "half_params = (cpg 100 110)\<lparr>min_ctx_freq := 1 / 2\<rparr>"

definition three_state :: "rat state" where
  "three_state =
     \<lparr>pat_map = [(100, [Some 7, Some 7, None])], hlght_map = [],
      pats =
        [\<lparr>pat_strand = 1, pat_start = 100, pat_end = 101, pat_nbase = 1, pat_beta = 1,
          pat_fnv = ''47DCE27ED9DB1531''\<rparr>,
         \<lparr>pat_strand = 1, pat_start = 100, pat_end = 101, pat_nbase = 1, pat_beta = 1,
          pat_fnv = ''47DCE27ED9DB1531''\<rparr>]\<rparr>"

definition three_calls :: "string list" where
  "three_calls = [''Zz'', ''Z.'', ''hH'']"

section \<open>Loops and maps\<close>

lemma for_each_append:
  "for_each f (xs @ ys) s =
     (case for_each f xs s of Inl e \<Rightarrow> Inl e | Inr s' \<Rightarrow> for_each f ys s')"
  by (induction xs arbitrary: s) (auto split: sum.splits)

lemma for_each_invariant:
  assumes "for_each f xs s = Inr s'" and "P s"
    and "\<And>x t t'. x \<in> set xs \<Longrightarrow> P t \<Longrightarrow> f x t = Inr t' \<Longrightarrow> P t'"
  shows "P s'"
  using assms
proof (induction xs arbitrary: s)
  case Nil
  then show ?case by simp
next
  case (Cons x xs)
  from Cons.prems(1) obtain t where t: "f x s = Inr t" and rest: "for_each f xs t = Inr s'"
    by (auto split: sum.splits)
  have "P t" using Cons.prems(2,3) t by auto
  with rest Cons.IH Cons.prems(3) show ?case by auto
qed

lemma keys_emplace: "fst ` set (emplace k v m) = insert k (fst ` set m)"
  by (auto simp: emplace_def set_insort_key)

lemma distinct_emplace:
  "distinct (map fst m) \<Longrightarrow> distinct (map fst (emplace k v m))"
  by (induction m) (auto simp: emplace_def set_insort_key)

lemma map_of_insort_key:
  "k \<notin> fst ` set m \<Longrightarrow> map_of (insort_key f (k, v) m) = (map_of m)(k \<mapsto> v)"
  by (induction m) (auto simp: fun_upd_twist)

lemma map_of_emplace:
  "map_of (emplace k v m) = (if k \<in> fst ` set m then map_of m else (map_of m)(k \<mapsto> v))"
  by (simp add: emplace_def map_of_insort_key)

lemma map_fst_map_entry: "map fst (AList.map_entry k f m) = map fst m"
  by (induction m) auto

lemma for_each_idle: "\<forall>x \<in> set xs. f x s = Inr s \<Longrightarrow> for_each f xs s = Inr s"
  by (induction xs) auto

lemma for_each_Inl:
  "for_each f xs s = Inl e \<Longrightarrow> \<exists>x \<in> set xs. \<exists>t. f x t = Inl e"
  by (induction xs arbitrary: s) (auto split: sum.splits)

lemma for_each_fails:
  assumes "x \<in> set xs" and "\<And>t. isl (f x t)"
  shows "isl (for_each f xs s)"
  using assms(1)
proof (induction xs arbitrary: s)
  case Nil
  then show ?case by simp
next
  case (Cons y ys)
  show ?case
  proof (cases "f y s")
    case (Inl e)
    then show ?thesis by simp
  next
    case (Inr t)
    with assms(2) [of s] have "x \<noteq> y" by auto
    with Cons Inr show ?thesis by simp
  qed
qed

section \<open>The first pass and the selected positions\<close>

lemma pass1_read_cases:
  assumes "pass1_read ps xm r (pm, n) = Inr (pm', n')"
  shows "if candidate ps xm r then n' = Suc n else (pm', n') = (pm, n)"
  using assms
  by (auto simp: pass1_read_def candidate_def Let_def split: if_splits sum.splits)

lemma pass1_count:
  "for_each (pass1_read ps xm) reads (pm, n) = Inr (pm', n') \<Longrightarrow>
   n' = n + length (filter (candidate ps xm) reads)"
proof (induction reads arbitrary: pm n)
  case Nil
  then show ?case by simp
next
  case (Cons r reads)
  from Cons.prems obtain pm1 n1 where
    1: "pass1_read ps xm r (pm, n) = Inr (pm1, n1)" and
    2: "for_each (pass1_read ps xm) reads (pm1, n1) = Inr (pm', n')"
    by (auto split: sum.splits)
  from pass1_read_cases [OF 1] Cons.IH [OF 2] show ?case
    by (auto split: if_splits)
qed

lemma pass1_nonempty:
  assumes "for_each (pass1_read ps xm) reads (pm, n) = Inr (pm', n')"
    and "pm = [] \<or> 1 \<le> n"
  shows "pm' = [] \<or> 1 \<le> n'"
proof -
  have "(\<lambda>s. fst s = [] \<or> 1 \<le> snd s) (pm', n')"
  proof (rule for_each_invariant [OF assms(1)])
    show "fst (pm, n) = [] \<or> 1 \<le> snd (pm, n)" using assms(2) by simp
  next
    fix x t t'
    assume "fst t = [] \<or> 1 \<le> snd t" and "pass1_read ps xm x t = Inr t'"
    then show "fst t' = [] \<or> 1 \<le> snd t'"
      using pass1_read_cases [of ps xm x "fst t" "snd t" "fst t'" "snd t'"]
      by (auto split: if_splits)
  qed
  then show ?thesis by simp
qed

lemma count_ctx_distinct:
  "count_ctx cs xm_x start_x off i pm = Inr pm' \<Longrightarrow> distinct (map fst pm) \<Longrightarrow>
   distinct (map fst pm')"
  by (auto simp: count_ctx_def Let_def map_fst_map_entry distinct_emplace
      split: sum.splits if_splits)

lemma pass1_read_distinct:
  assumes "pass1_read ps xm r (pm, n) = Inr (pm', n')" and "distinct (map fst pm)"
  shows "distinct (map fst pm')"
proof (cases "(pm', n') = (pm, n)")
  case True
  with assms(2) show ?thesis by simp
next
  case False
  with assms(1) obtain xm_x where
    "for_each (count_ctx (ctx ps) xm_x (start r) (offset_x ps r))
       (scan_range ps (start r) (of_nat (length xm_x))) pm = Inr pm'"
    by (auto simp: pass1_read_def Let_def split: if_splits sum.splits)
  then show ?thesis
    by (rule for_each_invariant) (use assms(2) in \<open>auto intro: count_ctx_distinct\<close>)
qed

lemma pass1_distinct:
  assumes "pass1 ps xm reads = Inr (pos_map, npat)"
  shows "distinct (map fst pos_map)"
proof -
  have "(\<lambda>s. distinct (map fst (fst s))) (pos_map, npat)"
    using assms unfolding pass1_def
  proof (rule for_each_invariant)
    fix x t t'
    assume "distinct (map fst (fst t))" and "pass1_read ps xm x t = Inr t'"
    then show "distinct (map fst (fst t'))"
      using pass1_read_distinct [of ps xm x "fst t" "snd t" "fst t'" "snd t'"] by simp
  qed simp
  then show ?thesis by simp
qed

lemma keys_fold_emplace:
  "fst ` set (fold (\<lambda>it m. if P it then emplace (fst it) (v it) m else m) xs acc) =
     fst ` set acc \<union> {fst it |it. it \<in> set xs \<and> P it}"
  by (induction xs arbitrary: acc) (auto simp: keys_emplace)

lemma keys_fill_pat_map:
  "fst ` set (fill_pat_map m ps pos_map npat) =
     {fst it |it. it \<in> set pos_map \<and> frequent m ps (snd it) npat} - set (hlght ps)"
  unfolding fill_pat_map_def
  by (subst keys_fold_emplace [where v = "\<lambda>_. replicate npat None"]) auto

text \<open>
  The keys with which the pattern map is filled, from the result of the first pass.
\<close>

lemma selected_keys:
  assumes "pass1 ps xm reads = Inr (pos_map, npat)"
  shows "npat = length (filter (candidate ps xm) reads) \<and>
         fst ` set (fill_pat_map m ps pos_map npat) =
           {pos. \<exists>n. map_of pos_map pos = Some n \<and>
                  fge m (fdiv m n (length (filter (candidate ps xm) reads))) (min_ctx_freq ps)}
             - set (hlght ps)"
proof -
  have n: "npat = length (filter (candidate ps xm) reads)"
    using pass1_count [of ps xm reads "[]" 0 pos_map npat] assms by (simp add: pass1_def)
  have "distinct (map fst pos_map)"
    using assms by (rule pass1_distinct)
  then have "{fst it |it. it \<in> set pos_map \<and> frequent m ps (snd it) npat} =
             {pos. \<exists>n. map_of pos_map pos = Some n \<and> frequent m ps n npat}"
    by (auto simp: map_of_eq_Some_iff) 
  with n show ?thesis
    by (simp add: keys_fill_pat_map frequent_def)
qed

section \<open>The second pass\<close>

lemma fnv_add_append: "fnv_add sg (fnv_add sg h xs) ys = fnv_add sg h (xs @ ys)"
  by (simp add: fnv_add_def)

lemma fnv_add_Nil: "fnv_add sg h [] = h"
  by (simp add: fnv_add_def)

lemma fnv_pos_base_eq:
  "fnv_pos_base m h pos c =
     fnv_add (char_signed m) h (int_bytes (big_endian m) pos @ [char_byte c])"
  by (simp add: fnv_pos_base_def fnv_add_append)

lemma probe_char_at: "probe cs s i = Inr (c, b) \<Longrightarrow> c_str_at s i = Inr c \<and> char_at s i = c"
  by (auto simp: probe_def char_at_def split: sum.splits if_splits)

lemma map_of_keys: "map_of m k \<noteq> None \<longleftrightarrow> k \<in> fst ` set m"
  by (simp add: map_of_eq_None_iff)

lemma scan_pat_step:
  assumes "scan_pat m cs xm_x start_x off npat i (pm, me, to, h) = Inr (pm', me', to', h')"
  shows "fst ` set pm' = fst ` set pm \<and>
         (if recorded_call cs xm_x start_x off (fst ` set pm) i
          then to' = Suc to \<and> me' = me + (if methylated_call xm_x i then 1 else 0) \<and>
               h' = fnv_add (char_signed m) h
                      (int_bytes (big_endian m) (start_x + of_nat i - off) @
                       [char_byte (char_at xm_x i)])
          else (pm', me', to', h') = (pm, me, to, h))"
proof (cases "probe cs xm_x i")
  case (Inl e)
  with assms show ?thesis by (simp add: scan_pat_def)
next
  case (Inr cb)
  obtain c b where cb: "cb = (c, b)" by (cases cb)
  note pc = probe_char_at [OF Inr [unfolded cb]]
  show ?thesis
  proof (cases "b \<and> start_x + of_nat i - off \<in> fst ` set pm")
    case True
    then obtain v where v: "map_of pm (start_x + of_nat i - off) = Some v"
      using map_of_keys [of pm "start_x + of_nat i - off"] by auto
    from True have s: "recorded_call cs xm_x start_x off (fst ` set pm) i"
      by (simp add: recorded_call_def Inr cb)
    from assms True v have
      "pm' = AList.map_entry (start_x + of_nat i - off) (\<lambda>v. v[npat := Some (ctx_to_idx c)]) pm"
      "me' = me + (if ctx_to_idx c AND 8 = 0 then 1 else 0)" "to' = Suc to"
      "h' = fnv_pos_base m h (start_x + of_nat i - off) c"
      by (auto simp: scan_pat_def Inr cb Let_def)
    then show ?thesis
      by (simp add: s pc methylated_call_def fnv_pos_base_eq AList.dom_map_entry)
  next
    case False
    then have s: "\<not> recorded_call cs xm_x start_x off (fst ` set pm) i"
      by (simp add: recorded_call_def Inr cb)
    from False have "\<not> b \<or> map_of pm (start_x + of_nat i - off) = None"
      using map_of_keys [of pm "start_x + of_nat i - off"] by auto
    with assms have "(pm', me', to', h') = (pm, me, to, h)"
      by (cases b) (auto simp: scan_pat_def Inr cb Let_def)
    with s show ?thesis by simp
  qed
qed

lemma scan_pat_loop:
  assumes "for_each (scan_pat m cs xm_x start_x off npat) is (pm, me, to, h)
             = Inr (pm', me', to', h')"
  shows "fst ` set pm' = fst ` set pm \<and>
         to' = to + length (filter (recorded_call cs xm_x start_x off (fst ` set pm)) is) \<and>
         me' = me + length (filter (\<lambda>i. recorded_call cs xm_x start_x off (fst ` set pm) i \<and>
                                        methylated_call xm_x i) is) \<and>
         h' = fnv_add (char_signed m) h
                (concat (map (\<lambda>i. int_bytes (big_endian m) (start_x + of_nat i - off) @
                                   [char_byte (char_at xm_x i)])
                          (filter (recorded_call cs xm_x start_x off (fst ` set pm)) is))) \<and>
         (filter (recorded_call cs xm_x start_x off (fst ` set pm)) is = [] \<longrightarrow> pm' = pm)"
  using assms
proof (induction "is" arbitrary: pm me to h)
  case Nil
  then show ?case by (simp add: fnv_add_Nil)
next
  case (Cons i "is")
  from Cons.prems obtain pm1 me1 to1 h1 where
    1: "scan_pat m cs xm_x start_x off npat i (pm, me, to, h) = Inr (pm1, me1, to1, h1)" and
    2: "for_each (scan_pat m cs xm_x start_x off npat) is (pm1, me1, to1, h1)
          = Inr (pm', me', to', h')"
    by (auto split: sum.splits)
  note s = scan_pat_step [OF 1]
  then have k: "fst ` set pm1 = fst ` set pm" by simp
  note ih = Cons.IH [OF 2, unfolded k]
  show ?case
  proof (cases "recorded_call cs xm_x start_x off (fst ` set pm) i")
    case True
    with s ih show ?thesis by (simp add: fnv_add_append)
  next
    case False
    with s ih show ?thesis by simp
  qed
qed

lemma scan_hlght_step:
  assumes "scan_hlght m cs seq_x start_x b_i e_i npat x (hm, h) = Inr (hm', h')"
  shows "fst ` set hm' = fst ` set hm \<and>
         (if recorded_hlght cs seq_x start_x b_i e_i x
          then hm' = AList.map_entry x
                       (\<lambda>v. v[npat := Some (nt_to_idx (char_at seq_x (unat (x - start_x))))]) hm \<and>
               h' = fnv_add (char_signed m) h
                      (int_bytes (big_endian m) x @
                       [char_byte (char_at seq_x (unat (x - start_x)))])
          else (hm', h') = (hm, h))"
proof (cases "b_i \<le> x - start_x \<and> x - start_x < e_i")
  case False
  with assms show ?thesis
    by (auto simp: scan_hlght_def recorded_hlght_def Let_def)
next
  case True
  show ?thesis
  proof (cases "probe cs seq_x (unat (x - start_x))")
    case (Inl e)
    with assms True show ?thesis by (simp add: scan_hlght_def Let_def)
  next
    case (Inr cb)
    obtain c b where cb: "cb = (c, b)" by (cases cb)
    note pc = probe_char_at [OF Inr [unfolded cb]]
    show ?thesis
    proof (cases b)
      case True
      with assms \<open>b_i \<le> x - start_x \<and> x - start_x < e_i\<close> have
        "hm' = AList.map_entry x (\<lambda>v. v[npat := Some (nt_to_idx c)]) hm"
        "h' = fnv_pos_base m h x c"
        by (auto simp: scan_hlght_def Let_def Inr cb)
      with True \<open>b_i \<le> x - start_x \<and> x - start_x < e_i\<close> show ?thesis
        by (simp add: recorded_hlght_def Inr cb pc fnv_pos_base_eq AList.dom_map_entry)
    next
      case False
      with assms \<open>b_i \<le> x - start_x \<and> x - start_x < e_i\<close> show ?thesis
        by (auto simp: scan_hlght_def recorded_hlght_def Let_def Inr cb)
    qed
  qed
qed

lemma scan_hlght_loop:
  assumes "for_each (scan_hlght m cs seq_x start_x b_i e_i npat) hs (hm, h) = Inr (hm', h')"
  shows "fst ` set hm' = fst ` set hm \<and>
         h' = fnv_add (char_signed m) h
                (concat (map (\<lambda>x. int_bytes (big_endian m) x @
                                   [char_byte (char_at seq_x (unat (x - start_x)))])
                          (filter (recorded_hlght cs seq_x start_x b_i e_i) hs)))"
  using assms
proof (induction hs arbitrary: hm h)
  case Nil
  then show ?case by (simp add: fnv_add_Nil)
next
  case (Cons x hs)
  from Cons.prems obtain hm1 h1 where
    1: "scan_hlght m cs seq_x start_x b_i e_i npat x (hm, h) = Inr (hm1, h1)" and
    2: "for_each (scan_hlght m cs seq_x start_x b_i e_i npat) hs (hm1, h1) = Inr (hm', h')"
    by (auto split: sum.splits)
  note s = scan_hlght_step [OF 1]
  note ih = Cons.IH [OF 2]
  show ?case
  proof (cases "recorded_hlght cs seq_x start_x b_i e_i x")
    case True
    with s ih show ?thesis by (simp add: fnv_add_append AList.dom_map_entry)
  next
    case False
    with s ih show ?thesis by simp
  qed
qed


lemma scan_pat_idle:
  assumes "\<forall>i \<in> set is. \<not> isl (probe cs xm_x i) \<and>
             \<not> recorded_call cs xm_x start_x off (fst ` set pm) i"
  shows "for_each (scan_pat m cs xm_x start_x off npat) is (pm, me, to, h) = Inr (pm, me, to, h)"
  using assms
proof (induction "is")
  case Nil
  then show ?case by simp
next
  case (Cons i "is")
  from Cons.prems obtain c b where
    p: "probe cs xm_x i = Inr (c, b)" and n: "\<not> (b \<and> start_x + of_nat i - off \<in> fst ` set pm)"
    by (cases "probe cs xm_x i") (auto simp: recorded_call_def)
  from n have "\<not> b \<or> map_of pm (start_x + of_nat i - off) = None"
    using map_of_keys [of pm "start_x + of_nat i - off"] by auto
  then have "scan_pat m cs xm_x start_x off npat i (pm, me, to, h) = Inr (pm, me, to, h)"
    by (cases b) (auto simp: scan_pat_def p Let_def)
  with Cons show ?case by simp
qed

lemma pass2_read_not_candidate:
  assumes "pass2_read m ps xm seq r st = Inr st'" and "\<not> candidate ps xm r"
  shows "st' = st"
  using assms
  by (auto simp: pass2_read_def candidate_def Let_def split: if_splits sum.splits)

lemma pass2_read_emit:
  assumes "pass2_read m ps xm seq r st = Inr st'" and "pats st' \<noteq> pats st"
  shows "\<exists>xm_x seq_x.
           at_vec xm (templid r) = Inr xm_x \<and> at_vec seq (templid r) = Inr seq_x \<and>
           candidate ps xm r \<and> 1 \<le> total_of ps xm_x r (fst ` set (pat_map st)) \<and>
           pats st' = pats st @ [pattern_of m ps xm_x seq_x r (fst ` set (pat_map st))]"
proof -
  from assms have t: "rname r = target_rname ps"
    by (auto simp: pass2_read_def split: if_splits)
  from assms t obtain xm_x where xm: "at_vec xm (templid r) = Inr xm_x"
    by (auto simp: pass2_read_def split: sum.splits)
  let ?size = "of_nat (length xm_x) :: 32 word"
  from assms t xm have ov: "overlaps ps (start r) ?size"
    by (auto simp: pass2_read_def Let_def split: if_splits)
  let ?sel = "recorded_call (ctx ps) xm_x (start r) (offset_x ps r) (fst ` set (pat_map st))"
  let ?range = "scan_range ps (start r) ?size"
  from assms t xm ov obtain pm' me to h where
    sc: "for_each (scan_pat m (ctx ps) xm_x (start r) (offset_x ps r) (length (pats st)))
           ?range (pat_map st, 0, 0, offset_basis) = Inr (pm', me, to, h)"
    by (auto simp: pass2_read_def Let_def split: sum.splits)
  note l = scan_pat_loop [OF sc]
  from assms t xm ov sc have ne: "h \<noteq> offset_basis"
    by (auto simp: pass2_read_def Let_def split: if_splits)
  with l have "filter ?sel ?range \<noteq> []"
    by (auto simp: fnv_add_Nil)
  then have nb: "1 \<le> total_of ps xm_x r (fst ` set (pat_map st))"
    by (simp add: total_of_def Suc_le_eq)
  from assms t xm ov sc ne obtain seq_x where sq: "at_vec seq (templid r) = Inr seq_x"
    by (auto simp: pass2_read_def Let_def split: sum.splits)
  from assms t xm ov sc ne sq obtain hm' h' where
    hl: "for_each (scan_hlght m (ctx ps) seq_x (start r) (begin_i ps (start r))
                     (end_i ps (start r) ?size) (length (pats st)))
           (hlght ps) (hlght_map st, h) = Inr (hm', h')"
    by (auto simp: pass2_read_def Let_def split: sum.splits)
  note g = scan_hlght_loop [OF hl]
  have fnv: "h' = fnv_add (char_signed m) offset_basis
                    (hashed_bytes m ps xm_x seq_x r (fst ` set (pat_map st)))"
    using l g by (simp add: hashed_bytes_def Let_def fnv_add_append)
  from assms t xm ov sc ne sq hl have
    "pats st' = pats st @
       [\<lparr>pat_strand = strand r,
         pat_start = start r + begin_i ps (start r),
         pat_end = start r + end_i ps (start r) ?size - 1,
         pat_nbase = to, pat_beta = fdiv m me to, pat_fnv = hex16 h'\<rparr>]"
    by (auto simp: pass2_read_def Let_def)
  with l fnv have "pats st' = pats st @ [pattern_of m ps xm_x seq_x r (fst ` set (pat_map st))]"
    by (simp add: pattern_of_def total_of_def meth_of_def)
  moreover have "candidate ps xm r"
    using t xm ov by (simp add: candidate_def)
  ultimately show ?thesis
    using xm sq nb by blast
qed

lemma pass2_read_keys:
  assumes "pass2_read m ps xm seq r st = Inr st'"
  shows "fst ` set (pat_map st') = fst ` set (pat_map st) \<and>
         fst ` set (hlght_map st') = fst ` set (hlght_map st)"
proof (cases "candidate ps xm r")
  case False
  with assms have "st' = st" by (rule pass2_read_not_candidate)
  then show ?thesis by simp
next
  case True
  then obtain xm_x where t: "rname r = target_rname ps" and xm: "at_vec xm (templid r) = Inr xm_x"
    and ov: "overlaps ps (start r) (of_nat (length xm_x))"
    by (auto simp: candidate_def split: sum.splits)
  let ?size = "of_nat (length xm_x) :: 32 word"
  from assms t xm ov obtain pm' me to h where
    sc: "for_each (scan_pat m (ctx ps) xm_x (start r) (offset_x ps r) (length (pats st)))
           (scan_range ps (start r) ?size) (pat_map st, 0, 0, offset_basis) = Inr (pm', me, to, h)"
    by (auto simp: pass2_read_def Let_def split: sum.splits)
  note l = scan_pat_loop [OF sc]
  show ?thesis
  proof (cases "h = offset_basis")
    case True
    with assms t xm ov sc have "st' = st\<lparr>pat_map := pm'\<rparr>"
      by (auto simp: pass2_read_def Let_def)
    with l show ?thesis by simp
  next
    case False
    with assms t xm ov sc obtain seq_x where sq: "at_vec seq (templid r) = Inr seq_x"
      by (auto simp: pass2_read_def Let_def split: sum.splits)
    from assms t xm ov sc False sq obtain hm' h' where
      hl: "for_each (scan_hlght m (ctx ps) seq_x (start r) (begin_i ps (start r))
                       (end_i ps (start r) ?size) (length (pats st)))
             (hlght ps) (hlght_map st, h) = Inr (hm', h')"
      by (auto simp: pass2_read_def Let_def split: sum.splits)
    from assms t xm ov sc False sq hl have "pat_map st' = pm'" "hlght_map st' = hm'"
      by (auto simp: pass2_read_def Let_def)
    with l scan_hlght_loop [OF hl] show ?thesis by simp
  qed
qed

text \<open>
  A candidate read whose scan meets no recorded call (no character that passes the test
  of line 143 at a position of \<open>pat_map\<close>) leaves the state of the second pass as it
  was: no pattern record, no cell written in the column of a position, no cell written
  in the column of a position to highlight, whatever the positions to highlight are.
\<close>

lemma no_recorded_call_no_pattern:
  assumes "rname r = target_rname ps" and "at_vec xm (templid r) = Inr xm_x"
    and "overlaps ps (start r) (of_nat (length xm_x))"
    and "\<forall>i \<in> set (scan_range ps (start r) (of_nat (length xm_x))).
           \<not> isl (probe (ctx ps) xm_x i) \<and>
           \<not> recorded_call (ctx ps) xm_x (start r) (offset_x ps r) (fst ` set (pat_map st)) i"
  shows "pass2_read m ps xm seq r st = Inr st"
  using assms(1-3) scan_pat_idle [OF assms(4), of m "length (pats st)" 0 0 offset_basis]
  by (simp add: pass2_read_def Let_def)

text \<open>
  The second of two reads has the calls \<open>hH\<close>, none in the context \<open>zZ\<close>, and spans the
  position 101 to highlight, where its base \<open>A\<close> would be recorded.
\<close>

lemma no_recorded_call_no_pattern_example:
  "rname (read_at 100 1) = target_rname hl_params \<and>
   at_vec [''Zz'', ''hH''] (templid (read_at 100 1)) = Inr ''hH'' \<and>
   overlaps hl_params (start (read_at 100 1)) (of_nat (length ''hH'')) \<and>
   scan_range hl_params (start (read_at 100 1)) (of_nat (length ''hH'')) = [0, 1] \<and>
   recorded_hlght (ctx hl_params) ''CA'' 100 0 2 101 \<and>
   pass2_read x86_64 hl_params [''Zz'', ''hH''] [''CG'', ''CA''] (read_at 100 1) hl_state
     = Inr hl_state"
proof -
  have 1: "rname (read_at 100 1) = target_rname hl_params"
    by code_simp
  have 2: "at_vec [''Zz'', ''hH''] (templid (read_at 100 1)) = Inr ''hH''"
    by code_simp
  have 3: "overlaps hl_params (start (read_at 100 1)) (of_nat (length ''hH''))"
    by code_simp
  have 4: "\<forall>i \<in> set (scan_range hl_params (start (read_at 100 1)) (of_nat (length ''hH''))).
      \<not> isl (probe (ctx hl_params) ''hH'' i) \<and>
      \<not> recorded_call (ctx hl_params) ''hH'' (start (read_at 100 1))
           (offset_x hl_params (read_at 100 1)) (fst ` set (pat_map hl_state)) i"
    by code_simp
  have 5: "scan_range hl_params (start (read_at 100 1)) (of_nat (length ''hH'')) = [0, 1]"
    by code_simp
  have 6: "recorded_hlght (ctx hl_params) ''CA'' 100 0 2 101"
    by code_simp
  from 1 2 3 5 6 no_recorded_call_no_pattern [OF 1 2 3 4, of x86_64 "[''CG'', ''CA'']"]
  show ?thesis by blast
qed

section \<open>The patterns of an invocation\<close>

lemma pass2_patterns:
  assumes "for_each (pass2_read m ps xm seq) reads st0 = Inr st"
  shows "fst ` set (pat_map st) = fst ` set (pat_map st0) \<and>
         (\<forall>p \<in> set (pats st).
            p \<in> set (pats st0) \<or>
            (\<exists>r \<in> set reads. \<exists>xm_x seq_x.
               at_vec xm (templid r) = Inr xm_x \<and> at_vec seq (templid r) = Inr seq_x \<and>
               candidate ps xm r \<and> 1 \<le> total_of ps xm_x r (fst ` set (pat_map st0)) \<and>
               p = pattern_of m ps xm_x seq_x r (fst ` set (pat_map st0))))"
    (is "?P st")
  using assms
proof (rule for_each_invariant)
  show "?P st0" by simp
next
  fix r t t'
  assume r: "r \<in> set reads" and t: "?P t" and step: "pass2_read m ps xm seq r t = Inr t'"
  from pass2_read_keys [OF step] t
  have k: "fst ` set (pat_map t') = fst ` set (pat_map st0)" by simp
  show "?P t'"
  proof (cases "pats t' = pats t")
    case True
    with t k show ?thesis by simp
  next
    case False
    from pass2_read_emit [OF step False] obtain xm_x seq_x where
      e: "at_vec xm (templid r) = Inr xm_x" "at_vec seq (templid r) = Inr seq_x"
        "candidate ps xm r" "1 \<le> total_of ps xm_x r (fst ` set (pat_map t))"
        "pats t' = pats t @ [pattern_of m ps xm_x seq_x r (fst ` set (pat_map t))]"
      by blast
    from t have kt: "fst ` set (pat_map t) = fst ` set (pat_map st0)" by simp
    from e r t show ?thesis
      unfolding k kt by auto
  qed
qed

text \<open>
  Every pattern that an invocation emits comes from a candidate read, has \<open>nbase\<close> at
  least 1, where \<open>nbase\<close> is the number of recorded calls of the read, and has for
  \<open>beta\<close> the quotient (the division on doubles, applied once) of the number of
  recorded calls whose category has bit 8 clear by \<open>nbase\<close>.
\<close>

lemma emitted_counts:
  assumes "pass1 ps xm reads = Inr (pos_map, npat)"
    and "both_passes m ps xm seq reads = Inr st"
    and "p \<in> set (pats st)"
  shows "1 \<le> pat_nbase p \<and>
         (\<exists>r \<in> set reads. \<exists>xm_x.
            at_vec xm (templid r) = Inr xm_x \<and> candidate ps xm r \<and>
            pat_nbase p = total_of ps xm_x r (fst ` set (fill_pat_map m ps pos_map npat)) \<and>
            pat_beta p =
              fdiv m (meth_of ps xm_x r (fst ` set (fill_pat_map m ps pos_map npat)))
                (pat_nbase p))"
proof -
  from assms(1,2) have
    "for_each (pass2_read m ps xm seq) reads
       \<lparr>pat_map = fill_pat_map m ps pos_map npat, hlght_map = fill_hlght_map ps npat,
        pats = []\<rparr> = Inr st"
    by (simp add: both_passes_def pass2_def)
  from pass2_patterns [OF this] assms(3) obtain r xm_x seq_x where
    "r \<in> set reads" "at_vec xm (templid r) = Inr xm_x" "candidate ps xm r"
    "1 \<le> total_of ps xm_x r (fst ` set (fill_pat_map m ps pos_map npat))"
    "p = pattern_of m ps xm_x seq_x r (fst ` set (fill_pat_map m ps pos_map npat))"
    by auto
  then show ?thesis
    by (auto simp: pattern_of_def)
qed


lemma emitted_counts_example:
  "pass1 (cpg 100 110) [''Zz'', ''hH''] two_reads = Inr ([(100, 1), (101, 1)], 2) \<and>
   both_passes x86_64 (cpg 100 110) [''Zz'', ''hH''] [''CG'', ''CA''] two_reads = Inr zz_state \<and>
   zz_pattern \<in> set (pats zz_state) \<and> 1 \<le> pat_nbase zz_pattern \<and>
   pat_nbase zz_pattern = 2 \<and> pat_beta zz_pattern = 1 / 2"
proof -
  have 1: "pass1 (cpg 100 110) [''Zz'', ''hH''] two_reads = Inr ([(100, 1), (101, 1)], 2)"
    by code_simp
  have 2: "both_passes x86_64 (cpg 100 110) [''Zz'', ''hH''] [''CG'', ''CA''] two_reads
             = Inr zz_state"
    by code_simp
  have 3: "zz_pattern \<in> set (pats zz_state)"
    by (simp add: zz_state_def)
  have 4: "pat_nbase zz_pattern = 2 \<and> pat_beta zz_pattern = 1 / 2"
    by (simp add: zz_pattern_def)
  from emitted_counts [OF 1 2 3] have "1 \<le> pat_nbase zz_pattern"
    by (rule conjunct1)
  with 1 2 3 4 show ?thesis by blast
qed

text \<open>
  Claim C1. In an invocation whose first pass returns \<open>pos_map\<close> and \<open>npat\<close>, \<open>npat\<close>
  is the number of candidate reads (each read that passes the overlap filter counts
  once, with or without a call in context). The second pass scans with the selected
  positions, the keys of its pattern map from its start to its end: they are the
  positions of \<open>pos_map\<close> whose count divided by the number of candidate reads is at
  least \<open>min_ctx_freq\<close>, without the positions to highlight; and every pattern that
  the invocation emits is the record of a candidate read scanned against this set.
\<close>

theorem selected_positions:
  assumes "pass1 ps xm reads = Inr (pos_map, npat)"
    and "both_passes m ps xm seq reads = Inr st"
  shows "npat = length (filter (candidate ps xm) reads) \<and>
         fst ` set (pat_map st) =
           {pos. \<exists>n. map_of pos_map pos = Some n \<and>
                  fge m (fdiv m n (length (filter (candidate ps xm) reads))) (min_ctx_freq ps)}
             - set (hlght ps) \<and>
         (\<forall>p \<in> set (pats st). \<exists>r \<in> set reads. \<exists>xm_x seq_x.
            at_vec xm (templid r) = Inr xm_x \<and> at_vec seq (templid r) = Inr seq_x \<and>
            candidate ps xm r \<and>
            p = pattern_of m ps xm_x seq_x r (fst ` set (pat_map st)))"
proof -
  let ?st0 = "\<lparr>pat_map = fill_pat_map m ps pos_map npat, hlght_map = fill_hlght_map ps npat,
               pats = []\<rparr> :: 'a state"
  from assms have "for_each (pass2_read m ps xm seq) reads ?st0 = Inr st"
    by (simp add: both_passes_def pass2_def)
  note pp = pass2_patterns [OF this]
  from pp have k: "fst ` set (pat_map st) = fst ` set (fill_pat_map m ps pos_map npat)"
    by simp
  have p: "\<exists>r \<in> set reads. \<exists>xm_x seq_x.
            at_vec xm (templid r) = Inr xm_x \<and> at_vec seq (templid r) = Inr seq_x \<and>
            candidate ps xm r \<and>
            p = pattern_of m ps xm_x seq_x r (fst ` set (pat_map st))"
    if "p \<in> set (pats st)" for p
  proof -
    from pp that obtain r xm_x seq_x where
      "r \<in> set reads" "at_vec xm (templid r) = Inr xm_x" "at_vec seq (templid r) = Inr seq_x"
      "candidate ps xm r"
      "p = pattern_of m ps xm_x seq_x r (fst ` set (fill_pat_map m ps pos_map npat))"
      by auto
    then show ?thesis
      unfolding k by blast
  qed
  from selected_keys [OF assms(1), of m] have
    "npat = length (filter (candidate ps xm) reads)" and
    "fst ` set (pat_map st) =
       {pos. \<exists>n. map_of pos_map pos = Some n \<and>
              fge m (fdiv m n (length (filter (candidate ps xm) reads))) (min_ctx_freq ps)}
         - set (hlght ps)"
    unfolding k by blast+
  with p show ?thesis
    by blast
qed

text \<open>
  Three candidate reads, two patterns, threshold 1/2. Position 100 has frequency 2/3
  and is selected; position 101 has frequency 1/3 and is not, while with the number of
  patterns as the denominator it would be (1/2).
\<close>

theorem selected_positions_witness:
  "pass1 half_params three_calls three_reads = Inr ([(100, 2), (101, 1)], 3) \<and>
   both_passes x86_64 half_params three_calls [''CG'', ''CA'', ''CA''] three_reads
     = Inr three_state \<and>
   length (filter (candidate half_params three_calls) three_reads) = 3 \<and>
   length (pats three_state) = 2 \<and>
   fst ` set (pat_map three_state) = {100} \<and>
   {pos. \<exists>n. map_of [(100, 2), (101, 1)] pos = Some n \<and>
          fge x86_64
            (fdiv x86_64 n (length (filter (candidate half_params three_calls) three_reads)))
            (min_ctx_freq half_params)}
     - set (hlght half_params) = {100}"
proof -
  have 1: "pass1 half_params three_calls three_reads = Inr ([(100, 2), (101, 1)], 3)"
    by code_simp
  have 2: "both_passes x86_64 half_params three_calls [''CG'', ''CA'', ''CA''] three_reads
             = Inr three_state"
    by code_simp
  have 3: "length (pats three_state) = 2" "fst ` set (pat_map three_state) = {100}"
    by (simp_all add: three_state_def)
  from selected_positions [OF 1 2] have
    n: "3 = length (filter (candidate half_params three_calls) three_reads)" and
    e: "fst ` set (pat_map three_state) =
          {pos. \<exists>n. map_of [(100, 2), (101, 1)] pos = Some n \<and>
                 fge x86_64
                   (fdiv x86_64 n
                      (length (filter (candidate half_params three_calls) three_reads)))
                   (min_ctx_freq half_params)}
            - set (hlght half_params)"
    by blast+
  from e 3(2) have
    "{pos. \<exists>n. map_of [(100, 2), (101, 1)] pos = Some n \<and>
            fge x86_64
              (fdiv x86_64 n (length (filter (candidate half_params three_calls) three_reads)))
              (min_ctx_freq half_params)}
       - set (hlght half_params) = {100}"
    by (rule trans [OF sym])
  with 1 2 3 n [symmetric] show ?thesis
    by blast
qed

section \<open>The writes of the second pass\<close>

text \<open>
  The model writes a cell with \<open>v[npat := x]\<close> and finds the column of a position to
  highlight with \<open>AList.map_entry\<close>; the code writes \<open>hint->second[npat]\<close> without a
  check and dereferences the result of \<open>hlght_map.find\<close>. The two agree, because the
  accesses of the code are always in range: when the second pass reaches a candidate
  read, it has emitted fewer patterns than there are candidate reads (\<open>npat\<close> of the
  first pass, the length of every column), and every position to highlight has its
  column. In particular the patterns are never more than the candidate reads.
\<close>

lemma keys_fill_hlght_map: "fst ` set (fill_hlght_map ps npat) = set (hlght ps)"
proof -
  have "fst ` set (fold (\<lambda>h m. emplace h (replicate npat None) m) hs acc) =
          fst ` set acc \<union> set hs" for hs and acc :: "cells int_map"
    by (induction hs arbitrary: acc) (auto simp: keys_emplace)
  then show ?thesis
    by (simp add: fill_hlght_map_def)
qed

lemma set_emplace: "set (emplace k v m) \<subseteq> insert (k, v) (set m)"
  by (auto simp: emplace_def set_insort_key)

lemma lengths_fill_pat_map:
  "\<forall>e \<in> set (fill_pat_map m ps pos_map npat). length (snd e) = npat"
proof -
  have g: "\<forall>e \<in> set acc. length (snd e) = npat \<Longrightarrow>
        \<forall>e \<in> set (fold (\<lambda>it pm. if P it then emplace (fst it) (replicate npat None) pm else pm)
                       xs acc). length (snd e) = npat"
    for P xs and acc :: "cells int_map"
  proof (induction xs arbitrary: acc)
    case Nil
    then show ?case by simp
  next
    case (Cons x xs)
    have "\<forall>e \<in> set (if P x then emplace (fst x) (replicate npat None) acc else acc).
            length (snd e) = npat"
      using Cons.prems set_emplace [of "fst x" "replicate npat None" acc] by auto
    from Cons.IH [OF this] show ?case by simp
  qed
  show ?thesis
    unfolding fill_pat_map_def by (rule g) simp
qed

lemma lengths_fill_hlght_map:
  "\<forall>e \<in> set (fill_hlght_map ps npat). length (snd e) = npat"
proof -
  have g: "\<forall>e \<in> set acc. length (snd e) = npat \<Longrightarrow>
        \<forall>e \<in> set (fold (\<lambda>h m. emplace h (replicate npat None) m) hs acc). length (snd e) = npat"
    for hs and acc :: "cells int_map"
  proof (induction hs arbitrary: acc)
    case Nil
    then show ?case by simp
  next
    case (Cons h hs)
    have "\<forall>e \<in> set (emplace h (replicate npat None) acc). length (snd e) = npat"
      using Cons.prems set_emplace [of h "replicate npat None" acc] by auto
    from Cons.IH [OF this] show ?case by simp
  qed
  show ?thesis
    unfolding fill_hlght_map_def by (rule g) simp
qed

lemma lengths_map_entry:
  assumes "\<forall>e \<in> set m. length (snd e) = n" and "\<And>v. length (f v) = length v"
  shows "\<forall>e \<in> set (AList.map_entry k f m). length (snd e) = n"
  using assms(1) by (induction m) (auto simp: assms(2))

lemma scan_pat_lengths:
  assumes "scan_pat m cs xm_x start_x off npat i s = Inr s'"
    and "\<forall>e \<in> set (fst s). length (snd e) = n"
  shows "\<forall>e \<in> set (fst s'). length (snd e) = n"
proof (cases "fst s' = fst s")
  case True
  with assms(2) show ?thesis by simp
next
  case False
  with assms(1) obtain pos b where
    "fst s' = AList.map_entry pos (\<lambda>v. v[npat := Some b]) (fst s)"
    by (auto simp: scan_pat_def Let_def split: sum.splits if_splits option.splits prod.splits)
  with assms(2) show ?thesis
    using lengths_map_entry [of "fst s" n "\<lambda>v. v[npat := Some b]" pos] by simp
qed

lemma scan_hlght_lengths:
  assumes "scan_hlght m cs seq_x start_x b_i e_i npat x s = Inr s'"
    and "\<forall>e \<in> set (fst s). length (snd e) = n"
  shows "\<forall>e \<in> set (fst s'). length (snd e) = n"
proof (cases "fst s' = fst s")
  case True
  with assms(2) show ?thesis by simp
next
  case False
  with assms(1) obtain b where
    "fst s' = AList.map_entry x (\<lambda>v. v[npat := Some b]) (fst s)"
    by (auto simp: scan_hlght_def Let_def split: sum.splits if_splits prod.splits)
  with assms(2) show ?thesis
    using lengths_map_entry [of "fst s" n "\<lambda>v. v[npat := Some b]" x] by simp
qed

lemma pass2_read_lengths:
  assumes "pass2_read m ps xm seq r st = Inr st'"
    and "\<forall>e \<in> set (pat_map st). length (snd e) = n"
    and "\<forall>e \<in> set (hlght_map st). length (snd e) = n"
  shows "(\<forall>e \<in> set (pat_map st'). length (snd e) = n) \<and>
         (\<forall>e \<in> set (hlght_map st'). length (snd e) = n)"
proof (cases "candidate ps xm r")
  case False
  with assms(1) have "st' = st" by (rule pass2_read_not_candidate)
  with assms(2,3) show ?thesis by simp
next
  case True
  then obtain xm_x where t: "rname r = target_rname ps" and xm: "at_vec xm (templid r) = Inr xm_x"
    and ov: "overlaps ps (start r) (of_nat (length xm_x))"
    by (auto simp: candidate_def split: sum.splits)
  let ?size = "of_nat (length xm_x) :: 32 word"
  from assms(1) t xm ov obtain pm' me to h where
    sc: "for_each (scan_pat m (ctx ps) xm_x (start r) (offset_x ps r) (length (pats st)))
           (scan_range ps (start r) ?size) (pat_map st, 0, 0, offset_basis) = Inr (pm', me, to, h)"
    by (auto simp: pass2_read_def Let_def split: sum.splits)
  have "\<forall>e \<in> set (fst (pm', me, to, h)). length (snd e) = n"
    using sc
  proof (rule for_each_invariant)
    show "\<forall>e \<in> set (fst (pat_map st, 0::nat, 0::nat, offset_basis)). length (snd e) = n"
      using assms(2) by simp
  qed (rule scan_pat_lengths)
  then have pl: "\<forall>e \<in> set pm'. length (snd e) = n" by simp
  show ?thesis
  proof (cases "h = offset_basis")
    case True
    with assms(1) t xm ov sc have "st' = st\<lparr>pat_map := pm'\<rparr>"
      by (auto simp: pass2_read_def Let_def)
    with pl assms(3) show ?thesis by simp
  next
    case False
    with assms(1) t xm ov sc obtain seq_x where sq: "at_vec seq (templid r) = Inr seq_x"
      by (auto simp: pass2_read_def Let_def split: sum.splits)
    from assms(1) t xm ov sc False sq obtain hm' h' where
      hl: "for_each (scan_hlght m (ctx ps) seq_x (start r) (begin_i ps (start r))
                       (end_i ps (start r) ?size) (length (pats st)))
             (hlght ps) (hlght_map st, h) = Inr (hm', h')"
      by (auto simp: pass2_read_def Let_def split: sum.splits)
    have "\<forall>e \<in> set (fst (hm', h')). length (snd e) = n"
      using hl
    proof (rule for_each_invariant)
      show "\<forall>e \<in> set (fst (hlght_map st, h)). length (snd e) = n"
        using assms(3) by simp
    qed (rule scan_hlght_lengths)
    moreover from assms(1) t xm ov sc False sq hl have "pat_map st' = pm'" "hlght_map st' = hm'"
      by (auto simp: pass2_read_def Let_def)
    ultimately show ?thesis
      using pl by simp
  qed
qed

lemma pass2_read_count:
  assumes "pass2_read m ps xm seq r st = Inr st'"
  shows "length (pats st') \<le> length (pats st) + (if candidate ps xm r then 1 else 0)"
proof (cases "pats st' = pats st")
  case True
  then show ?thesis by simp
next
  case False
  from pass2_read_emit [OF assms False] obtain p where
    "candidate ps xm r" "pats st' = pats st @ [p]"
    by blast
  then show ?thesis by simp
qed

lemma pass2_count:
  "for_each (pass2_read m ps xm seq) reads st0 = Inr st \<Longrightarrow>
   length (pats st) \<le> length (pats st0) + length (filter (candidate ps xm) reads)"
proof (induction reads arbitrary: st0)
  case Nil
  then show ?case by simp
next
  case (Cons r reads)
  from Cons.prems obtain st1 where
    1: "pass2_read m ps xm seq r st0 = Inr st1" and
    2: "for_each (pass2_read m ps xm seq) reads st1 = Inr st"
    by (auto split: sum.splits)
  from pass2_read_count [OF 1] Cons.IH [OF 2] show ?case
    by (auto split: if_splits)
qed

lemma writes_in_range:
  assumes "pass1 ps xm (pre @ r # post) = Inr (pos_map, npat)"
    and "pass2 m ps xm seq pre
           \<lparr>pat_map = fill_pat_map m ps pos_map npat, hlght_map = fill_hlght_map ps npat,
            pats = []\<rparr> = Inr st"
    and "candidate ps xm r"
  shows "length (pats st) < npat \<and>
         (\<forall>e \<in> set (pat_map st). length (snd e) = npat) \<and>
         (\<forall>e \<in> set (hlght_map st). length (snd e) = npat) \<and>
         fst ` set (hlght_map st) = set (hlght ps)"
proof -
  let ?st0 = "\<lparr>pat_map = fill_pat_map m ps pos_map npat, hlght_map = fill_hlght_map ps npat,
               pats = []\<rparr> :: 'a state"
  let ?P = "\<lambda>s :: 'a state.
              (\<forall>e \<in> set (pat_map s). length (snd e) = npat) \<and>
              (\<forall>e \<in> set (hlght_map s). length (snd e) = npat) \<and>
              fst ` set (hlght_map s) = set (hlght ps)"
  have run: "for_each (pass2_read m ps xm seq) pre ?st0 = Inr st"
    using assms(2) by (simp add: pass2_def)
  have n: "npat = length (filter (candidate ps xm) (pre @ r # post))"
    using pass1_count [of ps xm "pre @ r # post" "[]" 0 pos_map npat] assms(1)
    by (simp add: pass1_def)
  from pass2_count [OF run] assms(3) n have "length (pats st) < npat"
    by simp
  moreover have "?P st"
  proof (rule for_each_invariant [where P = ?P, OF run])
    show "?P ?st0"
      using lengths_fill_pat_map [of m ps pos_map npat] lengths_fill_hlght_map [of ps npat]
      by (simp add: keys_fill_hlght_map)
  next
    fix x t t'
    assume P: "?P t" and step: "pass2_read m ps xm seq x t = Inr t'"
    from P have
      "\<forall>e \<in> set (pat_map t). length (snd e) = npat"
      "\<forall>e \<in> set (hlght_map t). length (snd e) = npat"
      by blast+
    with step have
      "(\<forall>e \<in> set (pat_map t'). length (snd e) = npat) \<and>
       (\<forall>e \<in> set (hlght_map t'). length (snd e) = npat)"
      by (rule pass2_read_lengths)
    moreover from pass2_read_keys [OF step] P
    have "fst ` set (hlght_map t') = set (hlght ps)"
      by simp
    ultimately show "?P t'"
      by blast
  qed
  ultimately show ?thesis by simp
qed

text \<open>
  The columns of positions in the data frame of an invocation with a pattern: the
  selected positions and the positions to highlight.
\<close>

lemma keys_merge: "fst ` set (merge m1 m2) = fst ` set m1 \<union> fst ` set m2"
proof -
  have "fst ` set (fold (\<lambda>e m. emplace (fst e) (snd e) m) xs acc) = fst ` set acc \<union> fst ` set xs"
    for xs acc :: "'a int_map"
    by (induction xs arbitrary: acc) (auto simp: keys_emplace)
  then show ?thesis
    by (simp add: merge_def)
qed

lemma position_columns:
  assumes "pass1 ps xm reads = Inr (pos_map, npat)"
    and "both_passes m ps xm seq reads = Inr st" and "pats st \<noteq> []"
    and "\<forall>c \<in> set (ctx ps). of_char c < (128::nat)"
  shows "\<exists>df. rcpp_extract_patterns m ps xm seq reads = Inr df \<and>
           {k. Position k \<in> fst ` set df} = fst ` set (pat_map st) \<union> set (hlght ps)"
proof -
  let ?st0 = "\<lparr>pat_map = fill_pat_map m ps pos_map npat, hlght_map = fill_hlght_map ps npat,
               pats = []\<rparr> :: 'a state"
  from assms(1,2) have run: "for_each (pass2_read m ps xm seq) reads ?st0 = Inr st"
    by (simp add: both_passes_def pass2_def)
  have "fst ` set (hlght_map st) = fst ` set (hlght_map ?st0)"
  proof (rule for_each_invariant [where P = "\<lambda>s. fst ` set (hlght_map s) = fst ` set (hlght_map ?st0)",
        OF run])
    fix x t t'
    assume "fst ` set (hlght_map t) = fst ` set (hlght_map ?st0)"
      and "pass2_read m ps xm seq x t = Inr t'"
    then show "fst ` set (hlght_map t') = fst ` set (hlght_map ?st0)"
      using pass2_read_keys [of m ps xm seq x t t'] by simp
  qed simp
  then have h: "fst ` set (hlght_map st) = set (hlght ps)"
    by (simp add: keys_fill_hlght_map)
  have "\<not> (\<exists>c \<in> set (ctx ps). 128 \<le> (of_char c :: nat))"
    using assms(4) by (auto simp: not_le)
  with assms(2,3) have r: "rcpp_extract_patterns m ps xm seq reads = Inr (assemble ps st)"
    by (simp add: rcpp_extract_patterns_def)
  have "{k. Position k \<in> fst ` set (assemble ps st)} =
          fst ` set (merge (pat_map st) (hlght_map st))"
    by (auto simp: assemble_def Let_def image_iff)
  with r h show ?thesis
    by (simp add: keys_merge)
qed

section \<open>Divisions\<close>

text \<open>
  The function divides in two places: \<open>(double)it->second/npat\<close> for each entry of
  \<open>pos_map\<close> (line 114) and \<open>(double)meth/total\<close> for each emitted pattern (line 178).
  Changing the division where the denominator is zero changes nothing.
\<close>

lemma fnv_pos_base_fdiv: "fnv_pos_base (m\<lparr>fdiv := f\<rparr>) = fnv_pos_base m"
  by (intro ext) (simp add: fnv_pos_base_def)

lemma scan_pat_fdiv: "scan_pat (m\<lparr>fdiv := f\<rparr>) = scan_pat m"
  by (intro ext) (unfold scan_pat_def fnv_pos_base_fdiv, rule refl)

lemma scan_hlght_fdiv: "scan_hlght (m\<lparr>fdiv := f\<rparr>) = scan_hlght m"
  by (intro ext) (unfold scan_hlght_def fnv_pos_base_fdiv, rule refl)

lemma pass2_read_fdiv:
  assumes "\<And>a b. b \<noteq> 0 \<Longrightarrow> f a b = fdiv m a b"
  shows "pass2_read (m\<lparr>fdiv := f\<rparr>) ps xm seq r st = pass2_read m ps xm seq r st"
proof (cases "candidate ps xm r")
  case False
  then show ?thesis
    by (auto simp: pass2_read_def candidate_def Let_def split: sum.splits)
next
  case True
  then obtain xm_x where t: "rname r = target_rname ps" and xm: "at_vec xm (templid r) = Inr xm_x"
    and ov: "overlaps ps (start r) (of_nat (length xm_x))"
    by (auto simp: candidate_def split: sum.splits)
  show ?thesis
  proof (cases "for_each (scan_pat m (ctx ps) xm_x (start r) (offset_x ps r) (length (pats st)))
                  (scan_range ps (start r) (of_nat (length xm_x)))
                  (pat_map st, 0, 0, offset_basis)")
    case (Inl e)
    with t xm ov show ?thesis
      by (simp add: pass2_read_def Let_def scan_pat_fdiv)
  next
    case (Inr res)
    obtain pm' me to h where res: "res = (pm', me, to, h)"
      by (cases res)
    note l = scan_pat_loop [OF Inr [unfolded res]]
    show ?thesis
    proof (cases "h = offset_basis")
      case True
      with t xm ov Inr res show ?thesis
        by (simp add: pass2_read_def Let_def scan_pat_fdiv)
    next
      case False
      then have "to \<noteq> 0"
        using l by (auto simp: fnv_add_Nil)
      then have "fdiv (m\<lparr>fdiv := f\<rparr>) me to = fdiv m me to"
        using assms by simp
      with False t xm ov Inr res show ?thesis
        unfolding pass2_read_def Let_def scan_pat_fdiv scan_hlght_fdiv
        by (simp split: sum.splits prod.splits)
    qed
  qed
qed

lemma fill_pat_map_fdiv:
  assumes "\<And>a b. b \<noteq> 0 \<Longrightarrow> f a b = fdiv m a b" and "pos_map = [] \<or> 1 \<le> npat"
  shows "fill_pat_map (m\<lparr>fdiv := f\<rparr>) ps pos_map npat = fill_pat_map m ps pos_map npat"
proof (cases "pos_map = []")
  case True
  then show ?thesis by (simp add: fill_pat_map_def)
next
  case False
  with assms have "frequent (m\<lparr>fdiv := f\<rparr>) ps n npat = frequent m ps n npat" for n
    by (simp add: frequent_def)
  then show ?thesis by (simp add: fill_pat_map_def)
qed

lemma rcpp_extract_patterns_fdiv:
  assumes "\<And>a b. b \<noteq> 0 \<Longrightarrow> f a b = fdiv m a b"
  shows "rcpp_extract_patterns (m\<lparr>fdiv := f\<rparr>) ps xm seq reads =
         rcpp_extract_patterns m ps xm seq reads"
proof -
  have 2: "pass2_read (m\<lparr>fdiv := f\<rparr>) ps xm seq = pass2_read m ps xm seq"
    using assms by (intro ext) (rule pass2_read_fdiv)
  have "both_passes (m\<lparr>fdiv := f\<rparr>) ps xm seq reads = both_passes m ps xm seq reads"
  proof (cases "pass1 ps xm reads")
    case (Inl e)
    then show ?thesis by (simp add: both_passes_def)
  next
    case (Inr res)
    obtain pos_map npat where res: "res = (pos_map, npat)" by (cases res)
    from Inr res have "pos_map = [] \<or> 1 \<le> npat"
      using pass1_nonempty [of ps xm reads "[]" 0 pos_map npat] by (simp add: pass1_def)
    with assms have "fill_pat_map (m\<lparr>fdiv := f\<rparr>) ps pos_map npat = fill_pat_map m ps pos_map npat"
      by (rule fill_pat_map_fdiv)
    with Inr res 2 show ?thesis
      by (simp add: both_passes_def pass2_def)
  qed
  then show ?thesis
    by (simp add: rcpp_extract_patterns_def)
qed

text \<open>
  Claim C10. After the first pass a non-empty \<open>pos_map\<close> comes with \<open>npat\<close> at least
  1, every emitted pattern has \<open>total\<close> at least 1, and the result of the function
  is the same whatever a division by zero would yield: every division that the
  invocation evaluates has a denominator that is not zero.
\<close>

theorem nonzero_denominators:
  assumes "pass1 ps xm reads = Inr (pos_map, npat)"
    and "both_passes m ps xm seq reads = Inr st"
  shows "(pos_map \<noteq> [] \<longrightarrow> 1 \<le> npat) \<and> (\<forall>p \<in> set (pats st). 1 \<le> pat_nbase p) \<and>
         rcpp_extract_patterns (m\<lparr>fdiv := \<lambda>a b. if b = 0 then d else fdiv m a b\<rparr>)
           ps xm seq reads
           = rcpp_extract_patterns m ps xm seq reads"
proof (intro conjI)
  show "pos_map \<noteq> [] \<longrightarrow> 1 \<le> npat"
    using pass1_nonempty [of ps xm reads "[]" 0 pos_map npat] assms(1) by (auto simp: pass1_def)
next
  from assms have
    "for_each (pass2_read m ps xm seq) reads
       \<lparr>pat_map = fill_pat_map m ps pos_map npat, hlght_map = fill_hlght_map ps npat,
        pats = []\<rparr> = Inr st"
    by (simp add: both_passes_def pass2_def)
  from pass2_patterns [OF this] show "\<forall>p \<in> set (pats st). 1 \<le> pat_nbase p"
    by (auto simp: pattern_of_def)
next
  show "rcpp_extract_patterns (m\<lparr>fdiv := \<lambda>a b. if b = 0 then d else fdiv m a b\<rparr>)
          ps xm seq reads
        = rcpp_extract_patterns m ps xm seq reads"
    by (rule rcpp_extract_patterns_fdiv) simp
qed

theorem nonzero_denominators_witness:
  "pass1 (cpg 100 110) [''Zz'', ''hH''] two_reads = Inr ([(100, 1), (101, 1)], 2) \<and>
   both_passes x86_64 (cpg 100 110) [''Zz'', ''hH''] [''CG'', ''CA''] two_reads = Inr zz_state \<and>
   pats zz_state = [zz_pattern] \<and> 1 \<le> pat_nbase zz_pattern \<and>
   rcpp_extract_patterns (x86_64\<lparr>fdiv := \<lambda>a b. if b = 0 then 42 else fdiv x86_64 a b\<rparr>)
     (cpg 100 110) [''Zz'', ''hH''] [''CG'', ''CA''] two_reads
     = rcpp_extract_patterns x86_64 (cpg 100 110) [''Zz'', ''hH''] [''CG'', ''CA''] two_reads"
proof -
  have 1: "pass1 (cpg 100 110) [''Zz'', ''hH''] two_reads = Inr ([(100, 1), (101, 1)], 2)"
    by code_simp
  have 2: "both_passes x86_64 (cpg 100 110) [''Zz'', ''hH''] [''CG'', ''CA''] two_reads
             = Inr zz_state"
    by code_simp
  have 3: "pats zz_state = [zz_pattern]"
    by (simp add: zz_state_def)
  from nonzero_denominators [OF 1 2, of 42] 1 2 3 show ?thesis
    by simp
qed

section \<open>No pattern\<close>

lemma pass1_read_idle:
  assumes "rname r = target_rname ps \<longrightarrow>
             (\<exists>xm_x. at_vec xm (templid r) = Inr xm_x \<and>
                     \<not> overlaps ps (start r) (of_nat (length xm_x)))"
  shows "pass1_read ps xm r st = Inr st"
  using assms by (auto simp: pass1_read_def Let_def)

lemma pass2_read_idle:
  assumes "rname r = target_rname ps \<longrightarrow>
             (\<exists>xm_x. at_vec xm (templid r) = Inr xm_x \<and>
                     \<not> overlaps ps (start r) (of_nat (length xm_x)))"
  shows "pass2_read m ps xm seq r st = Inr st"
  using assms by (auto simp: pass2_read_def Let_def)

lemma no_candidate_no_pattern:
  assumes "\<forall>r \<in> set reads. rname r = target_rname ps \<longrightarrow>
             (\<exists>xm_x. at_vec xm (templid r) = Inr xm_x \<and>
                     \<not> overlaps ps (start r) (of_nat (length xm_x)))"
  shows "\<exists>st. both_passes m ps xm seq reads = Inr st \<and> pats st = []"
proof -
  have "pass1 ps xm reads = Inr ([], 0)"
    unfolding pass1_def using assms by (intro for_each_idle ballI pass1_read_idle) simp
  moreover have "pass2 m ps xm seq reads st = Inr st" for st
    unfolding pass2_def using assms by (intro for_each_idle ballI pass2_read_idle) simp
  ultimately show ?thesis
    by (simp add: both_passes_def)
qed

text \<open>
  Claim C9. With a context string of ASCII characters, an invocation that emits no
  pattern returns the empty data frame, and returns it as a value, not as an error.
  This is so when both passes end with an empty list of patterns, in particular when
  no read is on the target chromosome, and when every read on the target chromosome
  fails the overlap filter.
\<close>

theorem no_pattern_empty_frame:
  assumes "\<forall>c \<in> set (ctx ps). of_char c < (128::nat)"
    and "(\<exists>st. both_passes m ps xm seq reads = Inr st \<and> pats st = []) \<or>
         (\<forall>r \<in> set reads. rname r \<noteq> target_rname ps) \<or>
         (\<forall>r \<in> set reads. rname r = target_rname ps \<longrightarrow>
            (\<exists>xm_x. at_vec xm (templid r) = Inr xm_x \<and>
                    \<not> overlaps ps (start r) (of_nat (length xm_x))))"
  shows "rcpp_extract_patterns m ps xm seq reads = Inr []"
proof -
  from assms(2) have "\<exists>st. both_passes m ps xm seq reads = Inr st \<and> pats st = []"
    using no_candidate_no_pattern [of reads ps xm m seq] by blast
  then obtain st where "both_passes m ps xm seq reads = Inr st" "pats st = []"
    by blast
  moreover have "\<not> (\<exists>c \<in> set (ctx ps). 128 \<le> (of_char c :: nat))"
    using assms(1) by (auto simp: not_le)
  ultimately show ?thesis
    by (simp add: rcpp_extract_patterns_def)
qed

text \<open>
  A candidate read without a call in context, and a read on another chromosome.
\<close>

theorem no_pattern_empty_frame_witness:
  "both_passes x86_64 (cpg 100 110) [''hH''] [''CA''] [read_at 100 0]
     = Inr \<lparr>pat_map = [], hlght_map = [], pats = []\<rparr> \<and>
   rcpp_extract_patterns x86_64 (cpg 100 110) [''hH''] [''CA''] [read_at 100 0] = Inr [] \<and>
   rname ((read_at 100 0)\<lparr>rname := 3\<rparr>) \<noteq> target_rname (cpg 100 110) \<and>
   rcpp_extract_patterns x86_64 (cpg 100 110) [''Zz''] [''CG''] [(read_at 100 0)\<lparr>rname := 3\<rparr>]
     = Inr []"
proof -
  have a: "\<forall>c \<in> set (ctx (cpg 100 110)). of_char c < (128::nat)"
    by code_simp
  have 1: "both_passes x86_64 (cpg 100 110) [''hH''] [''CA''] [read_at 100 0]
             = Inr \<lparr>pat_map = [], hlght_map = [], pats = []\<rparr>"
    by code_simp
  then have "\<exists>st. both_passes x86_64 (cpg 100 110) [''hH''] [''CA''] [read_at 100 0] = Inr st \<and>
      pats st = []"
    by simp
  then have 2: "rcpp_extract_patterns x86_64 (cpg 100 110) [''hH''] [''CA''] [read_at 100 0]
                  = Inr []"
    by (intro no_pattern_empty_frame [OF a] disjI1)
  have 3: "rname ((read_at 100 0)\<lparr>rname := 3\<rparr>) \<noteq> target_rname (cpg 100 110)"
    by code_simp
  then have "\<forall>r \<in> set [(read_at 100 0)\<lparr>rname := 3\<rparr>]. rname r \<noteq> target_rname (cpg 100 110)"
    by simp
  then have
    "rcpp_extract_patterns x86_64 (cpg 100 110) [''Zz''] [''CG''] [(read_at 100 0)\<lparr>rname := 3\<rparr>]
       = Inr []"
    by (intro no_pattern_empty_frame [OF a] disjI2 disjI1)
  with 1 2 3 show ?thesis by blast
qed

section \<open>Failures\<close>

text \<open>
  The function checks nothing before it scans. Its only checked access is
  \<open>std::vector::at\<close> on the two string tables, for a read on the target chromosome.
\<close>

lemma probe_Inl: "probe cs s i = Inl e \<Longrightarrow> e = Undefined"
  by (auto simp: probe_def c_str_at_def split: sum.splits if_splits)

lemma at_vec_Inl: "at_vec v t = Inl e \<Longrightarrow> e = Out_Of_Range"
  by (auto simp: at_vec_def split: if_splits)

lemma count_ctx_Inl: "count_ctx cs xm_x start_x off i pm = Inl e \<Longrightarrow> e = Undefined"
  by (auto simp: count_ctx_def Let_def dest: probe_Inl split: sum.splits if_splits)

lemma scan_pat_Inl: "scan_pat m cs xm_x start_x off npat i st = Inl e \<Longrightarrow> e = Undefined"
  by (auto simp: scan_pat_def Let_def dest: probe_Inl
      split: sum.splits if_splits prod.splits option.splits)

lemma scan_hlght_Inl:
  "scan_hlght m cs seq_x start_x b_i e_i npat h st = Inl e \<Longrightarrow> e = Undefined"
  by (auto simp: scan_hlght_def Let_def dest: probe_Inl
      split: sum.splits if_splits prod.splits)

lemma pass1_read_out_of_range:
  assumes "pass1_read ps xm r st = Inl Out_Of_Range"
  shows "rname r = target_rname ps \<and> at_vec xm (templid r) = Inl Out_Of_Range"
proof -
  from assms have t: "rname r = target_rname ps"
    by (auto simp: pass1_read_def split: if_splits)
  show ?thesis
  proof (cases "at_vec xm (templid r)")
    case (Inl e)
    with at_vec_Inl [OF Inl] t show ?thesis by simp
  next
    case (Inr xm_x)
    with assms t have
      "for_each (count_ctx (ctx ps) xm_x (start r) (offset_x ps r))
         (scan_range ps (start r) (of_nat (length xm_x))) (fst st) = Inl Out_Of_Range"
      by (auto simp: pass1_read_def Let_def split: if_splits sum.splits)
    from for_each_Inl [OF this] count_ctx_Inl show ?thesis by blast
  qed
qed

lemma pass2_read_out_of_range:
  assumes "pass2_read m ps xm seq r st = Inl Out_Of_Range"
  shows "rname r = target_rname ps \<and>
         (at_vec xm (templid r) = Inl Out_Of_Range \<or> at_vec seq (templid r) = Inl Out_Of_Range)"
proof -
  from assms have t: "rname r = target_rname ps"
    by (auto simp: pass2_read_def split: if_splits)
  show ?thesis
  proof (cases "at_vec xm (templid r)")
    case (Inl e)
    with at_vec_Inl [OF Inl] t show ?thesis by simp
  next
    case xm: (Inr xm_x)
    show ?thesis
    proof (cases "at_vec seq (templid r)")
      case (Inl e)
      with at_vec_Inl [OF Inl] t show ?thesis by simp
    next
      case sq: (Inr seq_x)
      have False
      proof (cases "for_each (scan_pat m (ctx ps) xm_x (start r) (offset_x ps r) (length (pats st)))
                  (scan_range ps (start r) (of_nat (length xm_x)))
                  (pat_map st, 0, 0, offset_basis)")
        case (Inl e)
        from for_each_Inl [OF Inl] scan_pat_Inl have "e = Undefined" by blast
        with assms t xm Inl show False
          by (auto simp: pass2_read_def Let_def split: if_splits)
      next
        case (Inr res)
        obtain pm' me to h where res: "res = (pm', me, to, h)" by (cases res)
        from assms t xm sq Inr res have
          "for_each (scan_hlght m (ctx ps) seq_x (start r) (begin_i ps (start r))
                       (end_i ps (start r) (of_nat (length xm_x))) (length (pats st)))
             (hlght ps) (hlght_map st, h) = Inl Out_Of_Range"
          by (auto simp: pass2_read_def Let_def split: if_splits sum.splits)
        from for_each_Inl [OF this] scan_hlght_Inl show False by blast
      qed
      then show ?thesis ..
    qed
  qed
qed

lemma pass1_read_fails:
  "rname r = target_rname ps \<Longrightarrow> at_vec xm (templid r) = Inl e \<Longrightarrow>
   pass1_read ps xm r st = Inl e"
  by (simp add: pass1_read_def)

text \<open>
  Claim C8, as stated, fails: a target window with \<open>end < start\<close> is not rejected, and
  a template reference outside the string table is not rejected when the read is on
  another chromosome. Both invocations return the empty data frame.
\<close>

theorem invalid_input_accepted:
  "target_end (cpg 200 100) < target_start (cpg 200 100) \<and>
   rcpp_extract_patterns x86_64 (cpg 200 100) [''Z''] [''C''] [read_at 150 0] = Inr [] \<and>
   at_vec [''Z''] (templid (read_at 150 5)) = Inl Out_Of_Range \<and>
   rcpp_extract_patterns x86_64 (cpg 100 200) [''Z''] [''C''] [(read_at 150 5)\<lparr>rname := 3\<rparr>]
     = Inr []"
  by code_simp

text \<open>
  Claim C8, amended. An invocation reports \<open>std::out_of_range\<close> only if some read on
  the target chromosome has a template reference outside one of the two string
  tables; it fails whenever some read on the target chromosome has a template
  reference outside the table of call strings; and it fails then while it scans, at
  the read in question, after the first pass has run over the reads before it. The
  target window plays no part in any of this.
\<close>

theorem failure_while_scanning:
  "(rcpp_extract_patterns m ps xm seq reads = Inl Out_Of_Range \<longrightarrow>
      (\<exists>r \<in> set reads. rname r = target_rname ps \<and>
         (at_vec xm (templid r) = Inl Out_Of_Range \<or>
          at_vec seq (templid r) = Inl Out_Of_Range))) \<and>
   ((\<exists>r \<in> set reads. rname r = target_rname ps \<and> at_vec xm (templid r) = Inl Out_Of_Range) \<longrightarrow>
      isl (rcpp_extract_patterns m ps xm seq reads)) \<and>
   ((\<forall>c \<in> set (ctx ps). of_char c < (128::nat)) \<and>
    (\<exists>s. for_each (pass1_read ps xm) pre ([], 0) = Inr s) \<and>
    rname r = target_rname ps \<and> at_vec xm (templid r) = Inl Out_Of_Range \<longrightarrow>
      rcpp_extract_patterns m ps xm seq (pre @ r # post) = Inl Out_Of_Range)"
proof (intro conjI impI)
  assume a: "rcpp_extract_patterns m ps xm seq reads = Inl Out_Of_Range"
  then have b: "both_passes m ps xm seq reads = Inl Out_Of_Range"
    by (auto simp: rcpp_extract_patterns_def split: if_splits sum.splits)
  show "\<exists>r \<in> set reads. rname r = target_rname ps \<and>
         (at_vec xm (templid r) = Inl Out_Of_Range \<or> at_vec seq (templid r) = Inl Out_Of_Range)"
  proof (cases "pass1 ps xm reads")
    case (Inl e)
    with b have "for_each (pass1_read ps xm) reads ([], 0) = Inl Out_Of_Range"
      by (simp add: both_passes_def pass1_def)
    from for_each_Inl [OF this] pass1_read_out_of_range show ?thesis by blast
  next
    case (Inr res)
    with b obtain st0 where "for_each (pass2_read m ps xm seq) reads st0 = Inl Out_Of_Range"
      by (auto simp: both_passes_def pass2_def split: prod.splits)
    from for_each_Inl [OF this] pass2_read_out_of_range show ?thesis by blast
  qed
next
  assume "\<exists>r \<in> set reads. rname r = target_rname ps \<and> at_vec xm (templid r) = Inl Out_Of_Range"
  then obtain r where r: "r \<in> set reads" "rname r = target_rname ps"
    "at_vec xm (templid r) = Inl Out_Of_Range" by blast
  then have "isl (pass1_read ps xm r t)" for t
    by (simp add: pass1_read_fails)
  with r(1) have "isl (pass1 ps xm reads)"
    unfolding pass1_def by (rule for_each_fails)
  then show "isl (rcpp_extract_patterns m ps xm seq reads)"
    by (auto simp: rcpp_extract_patterns_def both_passes_def isl_def)
next
  assume a: "(\<forall>c \<in> set (ctx ps). of_char c < (128::nat)) \<and>
    (\<exists>s. for_each (pass1_read ps xm) pre ([], 0) = Inr s) \<and>
    rname r = target_rname ps \<and> at_vec xm (templid r) = Inl Out_Of_Range"
  then obtain s where s: "for_each (pass1_read ps xm) pre ([], 0) = Inr s" by blast
  from a have "pass1_read ps xm r s = Inl Out_Of_Range"
    by (simp add: pass1_read_fails)
  with s have "pass1 ps xm (pre @ r # post) = Inl Out_Of_Range"
    by (simp add: pass1_def for_each_append)
  moreover from a have "\<not> (\<exists>c \<in> set (ctx ps). 128 \<le> (of_char c :: nat))"
    by (auto simp: not_le)
  ultimately show "rcpp_extract_patterns m ps xm seq (pre @ r # post) = Inl Out_Of_Range"
    by (simp add: rcpp_extract_patterns_def both_passes_def)
qed

text \<open>
  The second of two reads refers to a call string that does not exist; the window is
  malformed as well, and it is the reference that is reported.
\<close>

theorem failure_while_scanning_witness:
  "rcpp_extract_patterns x86_64 (cpg 200 100) [''Z''] [''C''] [read_at 150 0, read_at 150 5]
     = Inl Out_Of_Range \<and>
   (\<exists>r \<in> set [read_at 150 0, read_at 150 5].
      rname r = target_rname (cpg 200 100) \<and>
      (at_vec [''Z''] (templid r) = Inl Out_Of_Range \<or>
       at_vec [''C''] (templid r) = Inl Out_Of_Range)) \<and>
   for_each (pass1_read (cpg 200 100) [''Z'']) [read_at 150 0] ([], 0) = Inr ([], 0)"
proof -
  have 1: "rcpp_extract_patterns x86_64 (cpg 200 100) [''Z''] [''C''] [read_at 150 0, read_at 150 5]
             = Inl Out_Of_Range"
    by code_simp
  have 2: "for_each (pass1_read (cpg 200 100) [''Z'']) [read_at 150 0] ([], 0) = Inr ([], 0)"
    by code_simp
  from failure_while_scanning
    [of x86_64 "cpg 200 100" "[''Z'']" "[''C'']" "[read_at 150 0, read_at 150 5]"]
  have "rcpp_extract_patterns x86_64 (cpg 200 100) [''Z''] [''C''] [read_at 150 0, read_at 150 5]
          = Inl Out_Of_Range \<longrightarrow>
        (\<exists>r \<in> set [read_at 150 0, read_at 150 5].
           rname r = target_rname (cpg 200 100) \<and>
           (at_vec [''Z''] (templid r) = Inl Out_Of_Range \<or>
            at_vec [''C''] (templid r) = Inl Out_Of_Range))"
    by (rule conjunct1)
  with 1 2 show ?thesis by blast
qed

section \<open>The frequency map\<close>

text \<open>
  What the first pass leaves in \<open>pos_map\<close>: a position is present exactly when some
  candidate read has a call on it that passes the test of line 101, and its count is the
  number of these calls over all candidate reads.
\<close>

lemma count_ctx_step:
  assumes "count_ctx cs xm_x start_x off i pm = Inr pm'"
  shows "count_at pm' q =
           count_at pm q +
             (if counted_call cs xm_x i \<and> start_x + of_nat i - off = q then 1 else 0)"
proof (cases "probe cs xm_x i")
  case (Inl e)
  with assms show ?thesis by (simp add: count_ctx_def)
next
  case (Inr cb)
  obtain c b where cb: "cb = (c, b)" by (cases cb)
  show ?thesis
  proof (cases b)
    case True
    with assms Inr cb have
      "pm' = AList.map_entry (start_x + of_nat i - off) Suc
               (emplace (start_x + of_nat i - off) 0 pm)"
      by (simp add: count_ctx_def Let_def)
    then show ?thesis
      using map_of_keys [of pm "start_x + of_nat i - off"] True
      by (auto simp: count_at_def counted_call_def Inr cb AList.map_of_map_entry map_of_emplace
          split: option.splits)
  next
    case False
    with assms Inr cb have "pm' = pm"
      by (simp add: count_ctx_def)
    with False show ?thesis
      by (simp add: counted_call_def Inr cb)
  qed
qed

lemma count_ctx_loop:
  "for_each (count_ctx cs xm_x start_x off) is pm = Inr pm' \<Longrightarrow>
   count_at pm' q =
     count_at pm q +
       length (filter (\<lambda>i. counted_call cs xm_x i \<and> start_x + of_nat i - off = q) is)"
proof (induction "is" arbitrary: pm)
  case Nil
  then show ?case by simp
next
  case (Cons i "is")
  from Cons.prems obtain pm1 where
    1: "count_ctx cs xm_x start_x off i pm = Inr pm1" and
    2: "for_each (count_ctx cs xm_x start_x off) is pm1 = Inr pm'"
    by (auto split: sum.splits)
  from count_ctx_step [OF 1, of q] Cons.IH [OF 2] show ?case
    by simp
qed

lemma pass1_read_counts:
  assumes "pass1_read ps xm r (pm, n) = Inr (pm', n')"
  shows "count_at pm' q = count_at pm q + (if candidate ps xm r then counted_hits ps xm r q else 0)"
proof (cases "candidate ps xm r")
  case False
  with pass1_read_cases [OF assms] show ?thesis by simp
next
  case True
  then obtain xm_x where t: "rname r = target_rname ps" and xm: "at_vec xm (templid r) = Inr xm_x"
    and ov: "overlaps ps (start r) (of_nat (length xm_x))"
    by (auto simp: candidate_def split: sum.splits)
  with assms have
    "for_each (count_ctx (ctx ps) xm_x (start r) (offset_x ps r))
       (scan_range ps (start r) (of_nat (length xm_x))) pm = Inr pm'"
    by (auto simp: pass1_read_def Let_def split: sum.splits)
  from count_ctx_loop [OF this, of q] True xm show ?thesis
    by (simp add: counted_hits_def)
qed

lemma pass1_counts_from:
  "for_each (pass1_read ps xm) reads (pm, n) = Inr (pm', n') \<Longrightarrow>
   count_at pm' q =
     count_at pm q + (\<Sum>r\<leftarrow>filter (candidate ps xm) reads. counted_hits ps xm r q)"
proof (induction reads arbitrary: pm n)
  case Nil
  then show ?case by simp
next
  case (Cons r reads)
  from Cons.prems obtain pm1 n1 where
    1: "pass1_read ps xm r (pm, n) = Inr (pm1, n1)" and
    2: "for_each (pass1_read ps xm) reads (pm1, n1) = Inr (pm', n')"
    by (auto split: sum.splits)
  from pass1_read_counts [OF 1, of q] Cons.IH [OF 2] show ?case
    by simp
qed

lemma count_ctx_positive:
  assumes "count_ctx cs xm_x start_x off i pm = Inr pm'"
    and "\<forall>k n. map_of pm k = Some n \<longrightarrow> 1 \<le> n"
  shows "\<forall>k n. map_of pm' k = Some n \<longrightarrow> 1 \<le> n"
  using assms
  by (auto simp: count_ctx_def Let_def AList.map_of_map_entry map_of_emplace
      split: sum.splits if_splits option.splits)

lemma pass1_read_positive:
  assumes "pass1_read ps xm r (pm, n) = Inr (pm', n')"
    and "\<forall>k n. map_of pm k = Some n \<longrightarrow> 1 \<le> n"
  shows "\<forall>k n. map_of pm' k = Some n \<longrightarrow> 1 \<le> n"
proof (cases "(pm', n') = (pm, n)")
  case True
  with assms(2) show ?thesis by simp
next
  case False
  with assms(1) obtain xm_x where
    "for_each (count_ctx (ctx ps) xm_x (start r) (offset_x ps r))
       (scan_range ps (start r) (of_nat (length xm_x))) pm = Inr pm'"
    by (auto simp: pass1_read_def Let_def split: if_splits sum.splits)
  then show ?thesis
    by (rule for_each_invariant) (use assms(2) count_ctx_positive in \<open>blast+\<close>)
qed

lemma pos_map_counts:
  assumes "pass1 ps xm reads = Inr (pos_map, npat)"
  shows "map_of pos_map pos = Some n \<longleftrightarrow>
           1 \<le> n \<and> n = (\<Sum>r\<leftarrow>filter (candidate ps xm) reads. counted_hits ps xm r pos)"
proof -
  have c: "count_at pos_map pos = (\<Sum>r\<leftarrow>filter (candidate ps xm) reads. counted_hits ps xm r pos)"
    using pass1_counts_from [of ps xm reads "[]" 0 pos_map npat pos] assms
    by (simp add: pass1_def count_at_def)
  have "(\<lambda>s. \<forall>k n. map_of (fst s) k = Some n \<longrightarrow> 1 \<le> n) (pos_map, npat)"
    using assms unfolding pass1_def
  proof (rule for_each_invariant)
    fix x t t'
    assume "\<forall>k n. map_of (fst t) k = Some n \<longrightarrow> 1 \<le> n" and "pass1_read ps xm x t = Inr t'"
    then show "\<forall>k n. map_of (fst t') k = Some n \<longrightarrow> 1 \<le> n"
      using pass1_read_positive [of ps xm x "fst t" "snd t" "fst t'" "snd t'"] by simp
  qed simp
  then have p: "\<forall>k n. map_of pos_map k = Some n \<longrightarrow> 1 \<le> n"
    by simp
  show ?thesis
  proof
    assume "map_of pos_map pos = Some n"
    with c p show "1 \<le> n \<and> n = (\<Sum>r\<leftarrow>filter (candidate ps xm) reads. counted_hits ps xm r pos)"
      by (auto simp: count_at_def)
  next
    assume "1 \<le> n \<and> n = (\<Sum>r\<leftarrow>filter (candidate ps xm) reads. counted_hits ps xm r pos)"
    with c show "map_of pos_map pos = Some n"
      by (auto simp: count_at_def split: option.splits)
  qed
qed

section \<open>The overlap filter and the scan range\<close>

lemma sint_diff_succ:
  fixes a b :: "32 word"
  assumes "unat a < 2 ^ 31" and "1 \<le> unat b" and "unat b < 2 ^ 31"
  shows "sint (a - b + 1) = int (unat a) - int (unat b) + 1"
proof -
  have "a - b + 1 = word_of_int (int (unat a) - int (unat b) + 1)"
    by simp
  then have "sint (a - b + 1) = signed_take_bit 31 (int (unat a) - int (unat b) + 1)"
    by (simp only: sint_sbintrunc') simp
  also have "\<dots> = int (unat a) - int (unat b) + 1"
  proof (rule signed_take_bit_int_eq_self)
    have "int (unat a) < int (2 ^ 31)" "int 1 \<le> int (unat b)" "int (unat b) < int (2 ^ 31)"
      using assms by (simp_all only: of_nat_less_iff of_nat_le_iff)
    then have "int (unat a) < 2 ^ 31" "1 \<le> int (unat b)" "int (unat b) < 2 ^ 31"
      by simp_all
    then show "- (2 ^ 31) \<le> int (unat a) - int (unat b) + 1"
      "int (unat a) - int (unat b) + 1 < 2 ^ 31"
      by linarith+
  qed
  finally show ?thesis .
qed

lemma unat_end_x:
  assumes "1 \<le> unat start_x" and "unat start_x + unat size_x \<le> 2 ^ 31"
  shows "unat (end_x start_x size_x) = unat start_x + unat size_x - 1"
proof -
  have "unat (start_x + size_x) = unat start_x + unat size_x"
    using assms by (simp add: unat_add_lem [THEN iffD1])
  moreover have "1 \<le> start_x + size_x"
    using assms calculation by (simp add: word_le_nat_alt)
  ultimately show ?thesis
    by (simp add: end_x_def unat_sub)
qed

lemma unat_max: "unat (max a b) = max (unat a) (unat (b :: 32 word))"
  by (simp add: max_def word_le_nat_alt)

lemma unat_min: "unat (min a b) = min (unat a) (unat (b :: 32 word))"
  by (simp add: min_def word_le_nat_alt)

text \<open>
  The filter is the formula of the specification. For a read that starts at a
  position from 1 on and ends below \<open>2^31\<close>, and a target window below \<open>2^31\<close> (no
  unsigned computation wraps around), the filter passes the read exactly when
  \<open>min(read_end, target_end) - max(read_start, target_start) + 1 >= min_overlap\<close>,
  computed in the integers.
\<close>

lemma overlaps_iff:
  assumes "1 \<le> unat start_x" and "unat start_x < 2 ^ 31"
    and "unat start_x + unat size_x \<le> 2 ^ 31"
    and "unat (target_start ps) < 2 ^ 31" and "unat (target_end ps) < 2 ^ 31"
  shows "overlaps ps start_x size_x \<longleftrightarrow>
           sint (min_overlap ps)
             \<le> int (min (unat start_x + unat size_x - 1) (unat (target_end ps)))
                 - int (max (unat start_x) (unat (target_start ps))) + 1"
proof -
  have e: "unat (end_x start_x size_x) = unat start_x + unat size_x - 1"
    using assms by (simp add: unat_end_x)
  have a: "unat (over_end_x ps start_x size_x) < 2 ^ 31"
    using assms by (simp add: over_end_x_def unat_min)
  have b: "1 \<le> unat (over_start_x ps start_x)" "unat (over_start_x ps start_x) < 2 ^ 31"
    using assms by (simp_all add: over_start_x_def unat_max)
  have "sint (overlap ps start_x size_x) =
          int (unat (over_end_x ps start_x size_x)) - int (unat (over_start_x ps start_x)) + 1"
    unfolding overlap_def using a b by (rule sint_diff_succ)
  then show ?thesis
    by (simp only: overlaps_def word_sle_eq over_end_x_def over_start_x_def unat_min unat_max e)
qed

lemma scan_range_unclipped:
  "\<not> clip ps \<Longrightarrow> length xm_x < 2 ^ 32 \<Longrightarrow>
   scan_range ps start_x (of_nat (length xm_x)) = [0 ..< length xm_x]"
  by (simp add: scan_range_def begin_i_def end_i_def unat_of_nat)


text \<open>
  With \<open>clip\<close>, the scan range is the shared span for a read that does not start
  before the target.
\<close>

lemma filter_less_upt: "k \<le> n \<Longrightarrow> filter (\<lambda>i. i < k) [0 ..< n] = [0 ..< k]"
proof (induction n)
  case 0
  then show ?case by simp
next
  case (Suc n)
  show ?case
  proof (cases "k = Suc n")
    case True
    then have "filter (\<lambda>i. i < k) [0 ..< n] = [0 ..< n]"
      by (auto simp: filter_id_conv)
    with True show ?thesis by simp
  next
    case False
    with Suc show ?thesis by simp
  qed
qed

lemma clipped_scan_range_inside:
  assumes "clip ps" and "target_start ps \<le> start_x" and "start_x \<le> target_end ps"
    and "1 \<le> unat start_x" and "unat start_x + unat size_x \<le> 2 ^ 31"
    and "unat (target_end ps) < 2 ^ 31"
  shows "scan_range ps start_x size_x = intersected_span ps start_x size_x"
proof -
  let ?S = "unat start_x" and ?Z = "unat size_x" and ?E = "unat (target_end ps)"
  have os: "over_start_x ps start_x = start_x"
    using assms(2) by (simp add: over_start_x_def max_def)
  have e: "unat (end_x start_x size_x) = ?S + ?Z - 1"
    using assms by (simp add: unat_end_x)
  have oe: "unat (over_end_x ps start_x size_x) = min (?S + ?Z - 1) ?E"
    by (simp add: over_end_x_def unat_min e)
  have SE: "?S \<le> ?E"
    using assms(3) by (simp add: word_le_nat_alt)
  let ?k = "min (?S + ?Z - 1) ?E + 1 - ?S"
  have ov: "unat (overlap ps start_x size_x) = ?k"
  proof -
    let ?oe = "over_end_x ps start_x size_x"
    have lt: "unat ?oe + unat (1 :: 32 word) < 2 ^ LENGTH(32)"
      using assms(6) by (simp add: oe)
    then have 1: "unat (?oe + 1) = unat ?oe + 1"
      using unat_add_lem [of ?oe 1] by simp
    have "start_x \<le> ?oe + 1"
      using SE assms(4) by (simp add: word_le_nat_alt 1 oe)
    then have "unat (?oe + 1 - start_x) = unat (?oe + 1) - ?S"
      by (rule unat_sub)
    moreover have "overlap ps start_x size_x = ?oe + 1 - start_x"
      by (simp add: overlap_def os)
    ultimately show ?thesis
      by (simp add: 1 oe)
  qed
  have k: "?k \<le> ?Z"
    using assms(4) by auto
  have "intersected_span ps start_x size_x = filter (\<lambda>i. i < ?k) [0 ..< ?Z]"
    unfolding intersected_span_def os
  proof (rule filter_cong [OF refl])
    fix i assume "i \<in> set [0 ..< ?Z]"
    then have i: "i < ?Z" by simp
    have "i < 2 ^ 32"
      using i unsigned_less [of size_x, where 'a = nat] by simp
    then have "unat (of_nat i :: 32 word) = i"
      by (simp add: unat_of_nat)
    moreover from this have "?S + unat (of_nat i :: 32 word) < 2 ^ LENGTH(32)"
      using i assms(5) by simp
    ultimately have u: "unat (start_x + of_nat i) = ?S + i"
      using unat_add_lem [of start_x "of_nat i"] by simp
    show "(start_x \<le> start_x + of_nat i \<and> start_x + of_nat i \<le> over_end_x ps start_x size_x)
            \<longleftrightarrow> i < ?k"
      using i SE assms(4) by (auto simp: word_le_nat_alt u oe)
  qed
  also have "\<dots> = [0 ..< ?k]"
    using k by (rule filter_less_upt)
  finally show ?thesis
    using assms(1) by (simp add: scan_range_def begin_i_def end_i_def os ov)
qed

text \<open>
  Claim C5, second half: the code departs from it. With \<open>clip\<close>, line 99 (and 139)
  takes the length of the overlap for the end of the scan, \<open>end_i = overlap\<close>, where
  the index after the last shared position is \<open>begin_i + overlap\<close>. For a read that
  starts before the target the scan stops short: the read at 98 with 20 calls shares
  the positions 100 to 110 with the target, the indices 2 to 12, and the code scans
  the indices 2 to 10. The call \<open>Z\<close> at position 110 is never seen, and the function
  returns the empty data frame.
\<close>

theorem clipped_scan_stops_short:
  "overlap (cpg 100 110) 98 20 = 11 \<and>
   scan_range (cpg 100 110) 98 20 = [2, 3, 4, 5, 6, 7, 8, 9, 10] \<and>
   intersected_span (cpg 100 110) 98 20 = [2, 3, 4, 5, 6, 7, 8, 9, 10, 11, 12] \<and>
   rcpp_extract_patterns x86_64 (cpg 100 110) [''............Z.......'']
     [''AAAAAAAAAAAACGAAAAAA''] [read_at 98 0] = Inr []"
  by code_simp

section \<open>The context table in both roles\<close>

lemma probe_flag:
  "probe cs s i = Inr (c, b) \<Longrightarrow> b \<longleftrightarrow> c \<in> set cs \<or> c \<in> set ''ACGT''"
  by (auto simp: probe_def ctx_map_def split: sum.splits if_splits)

lemma count_ctx_counts:
  assumes "count_ctx cs xm_x start_x off i pm = Inr pm'"
  shows "\<exists>c. c_str_at xm_x i = Inr c \<and>
           (if c \<in> set cs \<or> c \<in> set ''ACGT''
            then map_of pm' (start_x + of_nat i - off) =
                   Some (Suc (case map_of pm (start_x + of_nat i - off) of
                                None \<Rightarrow> 0 | Some n \<Rightarrow> n))
            else pm' = pm)"
proof (cases "probe cs xm_x i")
  case (Inl e)
  with assms show ?thesis by (simp add: count_ctx_def)
next
  case (Inr cb)
  obtain c b where cb: "cb = (c, b)" by (cases cb)
  from probe_char_at [OF Inr [unfolded cb]] have c: "c_str_at xm_x i = Inr c" by simp
  from probe_flag [OF Inr [unfolded cb]] have b: "b \<longleftrightarrow> c \<in> set cs \<or> c \<in> set ''ACGT''" .
  show ?thesis
  proof (cases b)
    case True
    with assms Inr cb have
      "pm' = AList.map_entry (start_x + of_nat i - off) Suc
               (emplace (start_x + of_nat i - off) 0 pm)"
      by (simp add: count_ctx_def Let_def)
    then have "map_of pm' (start_x + of_nat i - off) =
                 Some (Suc (case map_of pm (start_x + of_nat i - off) of
                              None \<Rightarrow> 0 | Some n \<Rightarrow> n))"
      using map_of_keys [of pm "start_x + of_nat i - off"]
      by (auto simp: AList.map_of_map_entry map_of_emplace split: option.splits)
    with True b c show ?thesis by simp
  next
    case False
    with assms Inr cb have "pm' = pm"
      by (simp add: count_ctx_def)
    with False b c show ?thesis by simp
  qed
qed

text \<open>
  Claim C2: the code departs from it. Line 75 sets the flags of \<open>A\<close>, \<open>C\<close>, \<open>G\<close> and
  \<open>T\<close> "to make these bases valid for highlighting", in the table that line 101 (and
  143) consults for the calls. A call string with an \<open>A\<close> and the context \<open>zZ\<close>: the
  first pass counts the position, and the second pass emits a pattern whose column
  holds the category 0, which is not a level.
\<close>

theorem base_counted_as_context:
  "CHR ''A'' \<notin> set (ctx (cpg 100 110)) \<and>
   pass1 (cpg 100 110) [''.A.''] [read_at 100 0] = Inr ([(101, 1)], 1) \<and>
   rcpp_extract_patterns x86_64 (cpg 100 110) [''.A.''] [''CAG''] [read_at 100 0] =
     Inr [(Name ''seqnames'', Ints [47]), (Name ''strand'', Ints [1]),
          (Name ''start'', Ints [100]), (Name ''end'', Ints [102]),
          (Name ''nbase'', Counts [1]), (Name ''beta'', Doubles [1]),
          (Name ''pattern'', Strings [''3B2E06545C8BB6B3'']),
          (Position 101, Factor [Some 0])]"
  by code_simp

text \<open>
  Where the scanned calls of a read hold none of \<open>A\<close>, \<open>C\<close>, \<open>G\<close>, \<open>T\<close> outside the context
  set, the recorded calls are the in-context calls of the specification at selected
  positions: the counters agree with the counts of the specification, and a read
  without a call in context leaves the state as it was.
\<close>

lemma recorded_call_in_context:
  assumes "i < length xm_x" and "of_char (xm_x ! i) < (128::nat)"
    and "xm_x ! i \<in> set ''ACGT'' \<longrightarrow> xm_x ! i \<in> set (ctx ps)"
  shows "recorded_call (ctx ps) xm_x start_x off sel i \<longleftrightarrow>
           in_context ps xm_x i \<and> start_x + of_nat i - off \<in> sel"
  using assms
  by (auto simp: recorded_call_def in_context_def probe_def c_str_at_def ctx_map_def)

lemma methylated_call_eq:
  "i < length xm_x \<Longrightarrow> methylated_call xm_x i \<longleftrightarrow> ctx_to_idx (xm_x ! i) AND 8 = 0"
  by (simp add: methylated_call_def c_str_at_def)

lemma counts_agree_without_bases:
  assumes "\<forall>i \<in> set (scan_range ps (start r) (of_nat (length xm_x))).
             i < length xm_x \<and> of_char (xm_x ! i) < (128::nat) \<and>
             (xm_x ! i \<in> set ''ACGT'' \<longrightarrow> xm_x ! i \<in> set (ctx ps))"
  shows "total_of ps xm_x r sel = spec_nbase ps xm_x r sel \<and>
         meth_of ps xm_x r sel = spec_meth_count ps xm_x r sel"
proof -
  let ?range = "scan_range ps (start r) (of_nat (length xm_x))"
  have 1: "filter (recorded_call (ctx ps) xm_x (start r) (offset_x ps r) sel) ?range =
           filter (\<lambda>i. in_context ps xm_x i \<and> start r + of_nat i - offset_x ps r \<in> sel) ?range"
    using assms by (intro filter_cong refl recorded_call_in_context) auto
  have 2: "filter (\<lambda>i. recorded_call (ctx ps) xm_x (start r) (offset_x ps r) sel i \<and>
                        methylated_call xm_x i) ?range =
           filter (\<lambda>i. in_context ps xm_x i \<and>
                        (start r + of_nat i - offset_x ps r \<in> sel \<and>
                         ctx_to_idx (xm_x ! i) AND 8 = 0)) ?range"
  proof (rule filter_cong [OF refl])
    fix i assume "i \<in> set ?range"
    with assms have "i < length xm_x" "of_char (xm_x ! i) < (128::nat)"
      "xm_x ! i \<in> set ''ACGT'' \<longrightarrow> xm_x ! i \<in> set (ctx ps)"
      by auto
    then show "(recorded_call (ctx ps) xm_x (start r) (offset_x ps r) sel i \<and>
                methylated_call xm_x i) \<longleftrightarrow>
               (in_context ps xm_x i \<and>
                (start r + of_nat i - offset_x ps r \<in> sel \<and> ctx_to_idx (xm_x ! i) AND 8 = 0))"
      using recorded_call_in_context [of i xm_x ps "start r" "offset_x ps r" sel]
      by (auto simp: methylated_call_eq)
  qed
  show ?thesis
    unfolding total_of_def meth_of_def spec_nbase_def spec_meth_count_def in_context_calls_def
      filter_filter 1 2
    by simp
qed

lemma no_context_no_pattern:
  assumes "rname r = target_rname ps" and "at_vec xm (templid r) = Inr xm_x"
    and "overlaps ps (start r) (of_nat (length xm_x))"
    and "\<forall>i \<in> set (scan_range ps (start r) (of_nat (length xm_x))).
           i < length xm_x \<and> of_char (xm_x ! i) < (128::nat) \<and>
           (xm_x ! i \<in> set ''ACGT'' \<longrightarrow> xm_x ! i \<in> set (ctx ps))"
    and "in_context_calls ps xm_x r = []"
  shows "pass2_read m ps xm seq r st = Inr st"
proof (rule no_recorded_call_no_pattern [OF assms(1-3)], rule ballI)
  fix i assume i: "i \<in> set (scan_range ps (start r) (of_nat (length xm_x)))"
  with assms(4) have a: "i < length xm_x" "of_char (xm_x ! i) < (128::nat)"
    "xm_x ! i \<in> set ''ACGT'' \<longrightarrow> xm_x ! i \<in> set (ctx ps)"
    by auto
  from assms(5) i have "\<not> in_context ps xm_x i"
    by (auto simp: in_context_calls_def filter_empty_conv)
  with a show "\<not> isl (probe (ctx ps) xm_x i) \<and>
        \<not> recorded_call (ctx ps) xm_x (start r) (offset_x ps r) (fst ` set (pat_map st)) i"
    using recorded_call_in_context [of i xm_x ps "start r" "offset_x ps r" "fst ` set (pat_map st)"]
    by (simp add: probe_def c_str_at_def)
qed

text \<open>
  Claim C6: the code departs from it, by the defect of the shared table. The read with the
  calls \<open>.A.\<close> is a candidate and has no call of the context set \<open>zZ\<close> in its scan
  range. Because line 143 accepts the \<open>A\<close>, the hash leaves the offset basis and the
  read contributes a pattern record, a cell in the column of position 101 and a cell
  in the column of the position 100 to highlight.
\<close>

theorem read_without_context_emits_pattern:
  "candidate ((cpg 100 110)\<lparr>hlght := [100]\<rparr>) [''.A.''] (read_at 100 0) \<and>
   scan_range ((cpg 100 110)\<lparr>hlght := [100]\<rparr>) 100 3 = [0, 1, 2] \<and>
   in_context_calls ((cpg 100 110)\<lparr>hlght := [100]\<rparr>) ''.A.'' (read_at 100 0) = [] \<and>
   both_passes x86_64 ((cpg 100 110)\<lparr>hlght := [100]\<rparr>) [''.A.''] [''CAG''] [read_at 100 0] =
     Inr \<lparr>pat_map = [(101, [Some 0])], hlght_map = [(100, [Some 4])],
          pats = [\<lparr>pat_strand = 1, pat_start = 100, pat_end = 102, pat_nbase = 1,
                   pat_beta = 1, pat_fnv = ''82D2899C0B15494C''\<rparr>]\<rparr> \<and>
   rcpp_extract_patterns x86_64 ((cpg 100 110)\<lparr>hlght := [100]\<rparr>) [''.A.''] [''CAG'']
     [read_at 100 0] =
     Inr [(Name ''seqnames'', Ints [47]), (Name ''strand'', Ints [1]),
          (Name ''start'', Ints [100]), (Name ''end'', Ints [102]),
          (Name ''nbase'', Counts [1]), (Name ''beta'', Doubles [1]),
          (Name ''pattern'', Strings [''82D2899C0B15494C'']),
          (Position 100, Factor [Some 4]), (Position 101, Factor [Some 0])]"
  by code_simp

text \<open>
  Claim C7: the code departs from it, by the defect of the shared table. \<open>nbase\<close> is at least
  1 for every emitted pattern (\<open>emitted_counts\<close>), but \<open>meth\<close> and \<open>total\<close> count the
  calls \<open>A\<close>, \<open>C\<close>, \<open>G\<close>, \<open>T\<close> as well. For the calls \<open>.A.\<close> and the context \<open>zZ\<close> the
  pattern has \<open>nbase\<close> 1 and \<open>beta\<close> 1, with no call in context at a selected
  position: the count of methylated in-context calls is 0, and 0 divided by \<open>nbase\<close>
  is 0. The same holds for a read with the call \<open>A\<close> at a position that another read
  selects with a \<open>Z\<close>.
\<close>

theorem beta_counts_calls_outside_context:
  "both_passes x86_64 (cpg 100 110) [''.A.''] [''CAG''] [read_at 100 0] =
     Inr \<lparr>pat_map = [(101, [Some 0])], hlght_map = [],
          pats = [\<lparr>pat_strand = 1, pat_start = 100, pat_end = 102, pat_nbase = 1,
                   pat_beta = 1, pat_fnv = ''3B2E06545C8BB6B3''\<rparr>]\<rparr> \<and>
   in_context_calls (cpg 100 110) ''.A.'' (read_at 100 0) = [] \<and>
   spec_nbase (cpg 100 110) ''.A.'' (read_at 100 0) {101} = 0 \<and>
   spec_meth_count (cpg 100 110) ''.A.'' (read_at 100 0) {101} = 0 \<and>
   fdiv x86_64 (spec_meth_count (cpg 100 110) ''.A.'' (read_at 100 0) {101}) 1 = 0 \<and>
   both_passes x86_64 (cpg 100 110) [''Z'', ''A''] [''C'', ''C''] two_reads =
     Inr \<lparr>pat_map = [(100, [Some 7, Some 0])], hlght_map = [],
          pats = [\<lparr>pat_strand = 1, pat_start = 100, pat_end = 100, pat_nbase = 1,
                   pat_beta = 1, pat_fnv = ''47DCE27ED9DB1531''\<rparr>,
                  \<lparr>pat_strand = 1, pat_start = 100, pat_end = 100, pat_nbase = 1,
                   pat_beta = 1, pat_fnv = ''47DCE77ED9DB1DB0''\<rparr>]\<rparr> \<and>
   spec_nbase (cpg 100 110) ''A'' (read_at 100 1) {100} = 0 \<and>
   spec_meth_count (cpg 100 110) ''A'' (read_at 100 1) {100} = 0"
  by code_simp

lemma recorded_hlght_iff:
  "recorded_hlght cs seq_x start_x b_i e_i h \<longleftrightarrow>
     b_i \<le> h - start_x \<and> h - start_x < e_i \<and>
     (\<exists>c. c_str_at seq_x (unat (h - start_x)) = Inr c \<and> of_char c < (128::nat) \<and>
          (c \<in> set cs \<or> c \<in> set ''ACGT''))"
  by (auto simp: recorded_hlght_def probe_def ctx_map_def split: sum.splits)

text \<open>
  Claim C4: the code departs from it. Line 163 tests the base with the same table
  ("if ... is a valid (ACGT) base"), so a base that is a character of the context
  passes as well. With the context \<open>hH\<close> and the sequence \<open>TH\<close> (\<open>H\<close> is the IUPAC code
  for "not G"), the position 101 is recorded with the slot of \<open>A\<close>, 3, and hashed.
\<close>

theorem context_character_recorded_as_base:
  "CHR ''H'' \<notin> set ''ACGT'' \<and>
   char_at ''TH'' (unat (101 - start (read_at 100 0))) = CHR ''H'' \<and>
   hashed_bytes x86_64 ((cpg 100 110)\<lparr>ctx := ''hH'', hlght := [101]\<rparr>) ''H.'' ''TH''
     (read_at 100 0) {100} = [100, 0, 0, 0, 72, 101, 0, 0, 0, 72] \<and>
   hex16 (fnv_add True offset_basis [100, 0, 0, 0, 72, 101, 0, 0, 0, 72]) = ''3F73EA9AEAFD32C2'' \<and>
   rcpp_extract_patterns x86_64 ((cpg 100 110)\<lparr>ctx := ''hH'', hlght := [101]\<rparr>)
     [''H.''] [''TH''] [read_at 100 0] =
     Inr [(Name ''seqnames'', Ints [47]), (Name ''strand'', Ints [1]),
          (Name ''start'', Ints [100]), (Name ''end'', Ints [101]),
          (Name ''nbase'', Counts [1]), (Name ''beta'', Doubles [1]),
          (Name ''pattern'', Strings [''3F73EA9AEAFD32C2'']),
          (Position 100, Factor [Some 2]), (Position 101, Factor [Some 3])]"
  by code_simp

section \<open>The hash of a pattern\<close>

lemma char_to_u64_ascii:
  assumes "b < 128"
  shows "char_to_u64 sg b = ucast b"
proof -
  from assms have "uint b < 128"
    by (simp add: word_less_alt)
  moreover have "- 128 \<le> uint b"
    using uint_ge_0 [of b] by linarith
  ultimately have 1: "signed_take_bit 7 (uint b) = uint b"
    by (intro signed_take_bit_int_eq_self) simp_all
  have 2: "sint b = signed_take_bit (LENGTH(8) - Suc 0) (uint b)"
    by (rule sint_uint)
  have 3: "LENGTH(8) - Suc 0 = 7"
    by simp
  have 4: "sint b = uint b"
    by (simp only: 1 2 3)
  have "(scast b :: 64 word) = word_of_int (sint b)"
    by (rule scast_eq)
  also have "\<dots> = word_of_int (uint b)"
    by (simp only: 4)
  also have "\<dots> = ucast b"
    by (rule ucast_eq [symmetric])
  finally have "(scast b :: 64 word) = ucast b" .
  then show ?thesis
    by (simp add: char_to_u64_def)
qed

lemma fnv_add_unsigned: "fnv_add False h bs = fnv1a h bs"
  by (simp add: fnv_add_def fnv1a_def char_to_u64_def)

lemma fnv_add_ascii: "\<forall>b \<in> set bs. b < 128 \<Longrightarrow> fnv_add sg h bs = fnv1a h bs"
  by (induction bs arbitrary: h) (simp_all add: fnv_add_def fnv1a_def char_to_u64_ascii)

lemma length_hex16: "length (hex16 w) = 16"
  by (simp add: hex16_def)

text \<open>
  The sixteen digits are upper-case hexadecimal digits and denote the hash, most
  significant digit first; so equal strings come from equal hashes.
\<close>

lemma hex_digit_value:
  "d < 16 \<Longrightarrow>
   (if of_char (hex_digit d) < (58::nat) then of_char (hex_digit d) - 48
    else of_char (hex_digit d) - 55) = d"
proof -
  assume "d < 16"
  moreover have "\<forall>d \<in> set [0 ..< 16].
      (if of_char (hex_digit d) < (58::nat) then of_char (hex_digit d) - 48
       else of_char (hex_digit d) - 55) = d"
    by code_simp
  ultimately show ?thesis
    by simp
qed

lemma hex_digit_upper: "d < 16 \<Longrightarrow> hex_digit d \<in> set ''0123456789ABCDEF''"
proof -
  assume "d < 16"
  moreover have "\<forall>d \<in> set [0 ..< 16]. hex_digit d \<in> set ''0123456789ABCDEF''"
    by code_simp
  ultimately show ?thesis
    by simp
qed

lemma nibble: "unat (drop_bit (4 * k) w AND 15) = unat (w :: 64 word) div 16 ^ k mod 16"
proof -
  have "(15 :: 64 word) = mask 4"
    by (simp add: mask_eq_exp_minus_1)
  then have "drop_bit (4 * k) w AND 15 = take_bit 4 (drop_bit (4 * k) w)"
    by (simp add: take_bit_eq_mask)
  then have "unat (drop_bit (4 * k) w AND 15) = take_bit 4 (drop_bit (4 * k) (unat w))"
    by (simp add: unsigned_take_bit_eq unat_drop_bit_eq)
  also have "\<dots> = unat w div 16 ^ k mod 16"
    by (simp add: take_bit_eq_mod drop_bit_eq_div power_mult)
  finally show ?thesis .
qed

lemma digits_value:
  fixes a n :: nat
  shows "foldl (\<lambda>a d. 16 * a + d) a (map (\<lambda>k. n div 16 ^ k mod 16) (rev [0 ..< m])) =
     a * 16 ^ m + n mod 16 ^ m"
proof (induction m arbitrary: a)
  case 0
  then show ?case by simp
next
  case (Suc m)
  have "n mod 16 ^ Suc m = 16 ^ m * (n div 16 ^ m mod 16) + n mod 16 ^ m"
    using mod_mult2_eq [of n "16 ^ m" 16] by (simp add: mult.commute)
  with Suc [of "16 * a + n div 16 ^ m mod 16"] show ?case
    by (simp add: algebra_simps)
qed

lemma hex_value_hex16: "hex_value (hex16 w) = unat w"
proof -
  have "hex_value (hex16 w) =
          foldl (\<lambda>a d. 16 * a + d) 0 (map (\<lambda>k. unat w div 16 ^ k mod 16) (rev [0 ..< 16]))"
    unfolding hex_value_def hex16_def nibble foldl_map
    by (rule foldl_cong) (simp_all add: hex_digit_value)
  also have "\<dots> = unat w mod 16 ^ 16"
    by (simp add: digits_value)
  also have "\<dots> = unat w"
    using unsigned_less [of w, where 'a = nat] by simp
  finally show ?thesis .
qed

lemma hex16_inj: "hex16 a = hex16 b \<Longrightarrow> a = b"
  using hex_value_hex16 [of a] hex_value_hex16 [of b] by (simp add: word_unat_eq_iff)

lemma hex16_upper: "set (hex16 w) \<subseteq> set ''0123456789ABCDEF''"
proof -
  have "unat (drop_bit (4 * k) w AND 15) < 16" for k
    by (simp add: nibble)
  then show ?thesis
    unfolding hex16_def using hex_digit_upper by fastforce
qed

lemma pattern_hash:
  assumes "pass1 ps xm reads = Inr (pos_map, npat)"
    and "both_passes m ps xm seq reads = Inr st"
    and "p \<in> set (pats st)"
  shows "\<exists>r \<in> set reads. \<exists>xm_x seq_x.
           at_vec xm (templid r) = Inr xm_x \<and> at_vec seq (templid r) = Inr seq_x \<and>
           pat_fnv p = hex16 (fnv_add (char_signed m) offset_basis
                         (hashed_bytes m ps xm_x seq_x r
                            (fst ` set (fill_pat_map m ps pos_map npat))))"
proof -
  from assms(1,2) have
    "for_each (pass2_read m ps xm seq) reads
       \<lparr>pat_map = fill_pat_map m ps pos_map npat, hlght_map = fill_hlght_map ps npat,
        pats = []\<rparr> = Inr st"
    by (simp add: both_passes_def pass2_def)
  from pass2_patterns [OF this] assms(3) obtain r xm_x seq_x where
    "r \<in> set reads" "at_vec xm (templid r) = Inr xm_x" "at_vec seq (templid r) = Inr seq_x"
    "p = pattern_of m ps xm_x seq_x r (fst ` set (fill_pat_map m ps pos_map npat))"
    by auto
  then show ?thesis
    by (auto simp: pattern_of_def)
qed

text \<open>
  Claim C3: the code departs from it where \<open>char\<close> is signed. The structure is as
  claimed (\<open>pattern_hash\<close>, \<open>hex_value_hex16\<close>: sixteen upper-case hexadecimal
  digits denoting a hash that starts at the offset basis and runs over the position
  and call of each recorded index in scan order, then over each recorded position to
  highlight and its base in list order),
  and the update is FNV-1a where \<open>char\<close> is unsigned (\<open>fnv_add_unsigned\<close>) and on
  bytes below 128 (\<open>fnv_add_ascii\<close>). But \<open>fnv_add\<close> reads the bytes of the position
  through a \<open>const char*\<close>: with a signed \<open>char\<close> a byte of 128 or more is xor-ed
  into the hash with its sign extended to 64 bits, not as an octet. For the one call
  \<open>Z\<close> at position 128 the function returns another hash than FNV-1a of the same
  five bytes, which is what it returns where \<open>char\<close> is unsigned.
\<close>

theorem hash_extends_sign_of_position_bytes:
  "hashed_bytes x86_64 (cpg 128 130) ''Z'' ''C'' (read_at 128 0) {128} = [128, 0, 0, 0, 90] \<and>
   hex16 (fnv1a offset_basis [128, 0, 0, 0, 90]) = ''3C2D9F17CCE0A3DD'' \<and>
   hex16 (fnv_add True offset_basis [128, 0, 0, 0, 90]) = ''6E5F7F306C132EDD'' \<and>
   char_to_u64 True 128 = 0xFFFFFFFFFFFFFF80 \<and>
   rcpp_extract_patterns x86_64 (cpg 128 130) [''Z''] [''C''] [read_at 128 0] =
     Inr [(Name ''seqnames'', Ints [47]), (Name ''strand'', Ints [1]),
          (Name ''start'', Ints [128]), (Name ''end'', Ints [128]),
          (Name ''nbase'', Counts [1]), (Name ''beta'', Doubles [1]),
          (Name ''pattern'', Strings [''6E5F7F306C132EDD'']),
          (Position 128, Factor [Some 7])] \<and>
   rcpp_extract_patterns aarch64_linux (cpg 128 130) [''Z''] [''C''] [read_at 128 0] =
     Inr [(Name ''seqnames'', Ints [47]), (Name ''strand'', Ints [1]),
          (Name ''start'', Ints [128]), (Name ''end'', Ints [128]),
          (Name ''nbase'', Counts [1]), (Name ''beta'', Doubles [1]),
          (Name ''pattern'', Strings [''3C2D9F17CCE0A3DD'']),
          (Position 128, Factor [Some 7])]"
  by code_simp

end
